theory Spec2Isabelle
  imports Main
begin

section \<open>The Mira batch-scheduler simulator (MiraSim.py)\<close>

text \<open>
  The simulator keeps Python objects that are shared by reference: a Job object is
  reachable from the trace, the queue, the running list, and from the midplanes and
  nodes it occupies; a MidPlane object is reachable from the machine and from the jobs
  that hold it. The embedding therefore uses an explicit store: jobs and midplanes live
  in two heaps indexed by references, and every list of objects is a list of references.
  Python integers are \<open>int\<close>; \<open>None\<close> is \<open>None\<close> of an option type; an uncaught
  exception is the left injection of the result, carrying the world at the raise.
  The classes \<open>Task\<close> and \<open>Bucket\<close> and the \<open>__str__\<close> methods are never used by the
  run and are left out, as is the reading of the CSV file.
\<close>

subsection \<open>Data model\<close>

datatype JobStatus = CREATED | QUEUED | READY | RUNNING | ENDED

datatype MidPlaneStatus = VACANT | OCCUPIED

type_synonym job_ref = nat
type_synonym mp_ref = nat

record Job =
  name :: string
  num_of_requested_nodes :: int
  submitted_time :: int
  start_time :: "int option"
  end_time :: "int option"
  duration :: int
  exit_code :: string
  status :: JobStatus
  midplanes :: "mp_ref list"

text \<open>A MidPlane owns its 512 Node objects; a Node is only its \<open>job\<close> field.\<close>

record MidPlane =
  mp_name :: string
  mp_status :: MidPlaneStatus
  mp_job :: "job_ref option"
  nodes :: "job_ref option list"

text \<open>What the program writes: logging records (wording left out, data kept) and the
  \<open>print\<close> of the arrival loop.\<close>

datatype level = INFO | WARNING

datatype message =
    Job_Submitted string int
  | Job_Start_Running string int int
  | Job_Stop string int
  | Job_Assigned string "string list"
  | Job_Ready string
  | Midplane_Assigned string string
  | Midplane_Free_Again string
  | Midplane_Frees_Up string string
  | Mira_Find_Vacant string
  | Mira_Clean_Up string

datatype emitted = Logged level message | Printed nat

record world =
  jobs :: "job_ref \<Rightarrow> Job"
  mps :: "mp_ref \<Rightarrow> MidPlane"
  trace_jobs :: "job_ref list"
  queue :: "job_ref list"
  running_jobs :: "job_ref list"
  mira_midplanes :: "mp_ref list"
  simulated_wallclock :: int
  log :: "emitted list"

datatype error = AttributeError | TypeError | ValueError | IndexError

type_synonym result = "error \<times> world + world"

definition logging :: "level \<Rightarrow> message \<Rightarrow> world \<Rightarrow> world" where
  "logging l m s = s\<lparr>log := log s @ [Logged l m]\<rparr>"

definition upd_job :: "job_ref \<Rightarrow> (Job \<Rightarrow> Job) \<Rightarrow> world \<Rightarrow> world" where
  "upd_job j f s = s\<lparr>jobs := (jobs s)(j := f (jobs s j))\<rparr>"

definition upd_mp :: "mp_ref \<Rightarrow> (MidPlane \<Rightarrow> MidPlane) \<Rightarrow> world \<Rightarrow> world" where
  "upd_mp m f s = s\<lparr>mps := (mps s)(m := f (mps s m))\<rparr>"

subsection \<open>class Job\<close>

definition Job_init :: "string \<Rightarrow> int \<Rightarrow> int \<Rightarrow> int \<Rightarrow> string \<Rightarrow> Job" where
  "Job_init nm submitted dur requested ec =
     \<lparr>name = nm, num_of_requested_nodes = requested, submitted_time = submitted,
      start_time = None, end_time = None, duration = dur, exit_code = ec,
      status = CREATED, midplanes = []\<rparr>"

definition Job_submit :: "job_ref \<Rightarrow> int \<Rightarrow> world \<Rightarrow> world" where
  "Job_submit j curr_time s =
     (let s1 = upd_job j (\<lambda>b. b\<lparr>submitted_time := curr_time\<rparr>) s;
          s2 = upd_job j (\<lambda>b. b\<lparr>status := QUEUED\<rparr>) s1
      in logging INFO (Job_Submitted (name (jobs s2 j)) (submitted_time (jobs s2 j))) s2)"

text \<open>\<open>start\<close> reads back the start time it has just stored, so the sum is
  \<open>curr_time + duration\<close>.\<close>

definition Job_start :: "job_ref \<Rightarrow> int \<Rightarrow> world \<Rightarrow> world" where
  "Job_start j curr_time s =
     (let s1 = upd_job j (\<lambda>b. b\<lparr>start_time := Some curr_time\<rparr>) s;
          s2 = upd_job j (\<lambda>b. b\<lparr>status := RUNNING\<rparr>) s1;
          s3 = upd_job j (\<lambda>b. b\<lparr>end_time := Some (curr_time + duration b)\<rparr>) s2
      in logging INFO (Job_Start_Running (name (jobs s3 j)) curr_time
                         (curr_time + duration (jobs s3 j))) s3)"

definition Job_end :: "job_ref \<Rightarrow> int \<Rightarrow> world \<Rightarrow> world" where
  "Job_end j curr_time s =
     (let s1 = upd_job j (\<lambda>b. b\<lparr>end_time := Some curr_time\<rparr>) s;
          s2 = upd_job j (\<lambda>b. b\<lparr>status := ENDED\<rparr>) s1
      in logging INFO (Job_Stop (name (jobs s2 j)) curr_time) s2)"

text \<open>Comparing an unset end time with the clock is Python's TypeError.\<close>

definition Job_tick :: "job_ref \<Rightarrow> int \<Rightarrow> world \<Rightarrow> result" where
  "Job_tick j curr_time s =
     (let s1 = (if status (jobs s j) = READY then Job_start j curr_time s else s)
      in if status (jobs s1 j) = RUNNING
         then (case end_time (jobs s1 j) of
                 None \<Rightarrow> Inl (TypeError, s1)
               | Some e \<Rightarrow> if e \<le> curr_time then Inr (Job_end j curr_time s1) else Inr s1)
         else Inr s1)"

definition Job_assign_midplanes :: "job_ref \<Rightarrow> mp_ref list \<Rightarrow> world \<Rightarrow> world" where
  "Job_assign_midplanes j ms s =
     (let s1 = upd_job j (\<lambda>b. b\<lparr>midplanes := ms\<rparr>) s
      in logging INFO (Job_Assigned (name (jobs s1 j))
                         (map (\<lambda>md. mp_name (mps s1 md)) (midplanes (jobs s1 j)))) s1)"

definition Job_ready :: "job_ref \<Rightarrow> world \<Rightarrow> world" where
  "Job_ready j s =
     (let s1 = upd_job j (\<lambda>b. b\<lparr>status := READY\<rparr>) s
      in logging INFO (Job_Ready (name (jobs s1 j))) s1)"

definition Job_is_ended :: "job_ref \<Rightarrow> world \<Rightarrow> bool" where
  "Job_is_ended j s = (status (jobs s j) = ENDED)"

subsection \<open>class MidPlane (with its Nodes)\<close>

definition MidPlane_init :: "string \<Rightarrow> MidPlane" where
  "MidPlane_init nm =
     \<lparr>mp_name = nm, mp_status = VACANT, mp_job = None, nodes = replicate (16 * 32) None\<rparr>"

definition MidPlane_is_vacant :: "mp_ref \<Rightarrow> world \<Rightarrow> bool" where
  "MidPlane_is_vacant m s = (mp_status (mps s m) = VACANT)"

text \<open>No test of the current status: the midplane is overwritten whatever it holds.\<close>

definition MidPlane_assign_job :: "mp_ref \<Rightarrow> job_ref \<Rightarrow> world \<Rightarrow> world" where
  "MidPlane_assign_job m j s =
     (let s1 = upd_mp m (\<lambda>p. p\<lparr>nodes := map (\<lambda>n. Some j) (nodes p)\<rparr>) s;
          s2 = upd_mp m (\<lambda>p. p\<lparr>mp_status := OCCUPIED\<rparr>) s1;
          s3 = upd_mp m (\<lambda>p. p\<lparr>mp_job := Some j\<rparr>) s2
      in logging INFO (Midplane_Assigned (mp_name (mps s3 m)) (name (jobs s3 j))) s3)"

text \<open>The last logging call reads \<open>self.job.name\<close>; with \<open>self.job\<close> unset this is
  Python's AttributeError, raised after the nodes and the status have been written.\<close>

definition MidPlane_free_up :: "mp_ref \<Rightarrow> world \<Rightarrow> result" where
  "MidPlane_free_up m s =
     (let s1 = (if MidPlane_is_vacant m s
                then logging WARNING (Midplane_Free_Again (mp_name (mps s m))) s else s);
          s2 = upd_mp m (\<lambda>p. p\<lparr>nodes := map (\<lambda>n. None) (nodes p)\<rparr>) s1;
          s3 = upd_mp m (\<lambda>p. p\<lparr>mp_status := VACANT\<rparr>) s2
      in case mp_job (mps s3 m) of
           None \<Rightarrow> Inl (AttributeError, s3)
         | Some j \<Rightarrow>
             Inr (upd_mp m (\<lambda>p. p\<lparr>mp_job := None\<rparr>)
                    (logging INFO (Midplane_Frees_Up (mp_name (mps s3 m)) (name (jobs s3 j))) s3)))"

subsection \<open>class Mira\<close>

text \<open>\<open>str(i)\<close> for the midplane names.\<close>

definition digit_char :: "nat \<Rightarrow> char" where
  "digit_char d = char_of (48 + d)"

function str :: "nat \<Rightarrow> string" where
  "str n = (if n < 10 then [digit_char n] else str (n div 10) @ [digit_char (n mod 10)])"
  by pat_completeness auto
termination
  by (relation "measure (\<lambda>n. n)") auto

declare str.simps [simp del]

definition Mira_init :: "(job_ref \<Rightarrow> Job) \<Rightarrow> job_ref list \<Rightarrow> world" where
  "Mira_init heap tr =
     \<lparr>jobs = heap, mps = (\<lambda>i. MidPlane_init (str i)), trace_jobs = tr, queue = [],
      running_jobs = [], mira_midplanes = [0..<96], simulated_wallclock = 0, log = []\<rparr>"

definition submit_job :: "job_ref \<Rightarrow> world \<Rightarrow> world" where
  "submit_job new_job s =
     Job_submit new_job (simulated_wallclock s) (s\<lparr>queue := queue s @ [new_job]\<rparr>)"

text \<open>The search loop of \<open>schedule\<close>, with its \<open>break\<close>.\<close>

fun find_vacant :: "world \<Rightarrow> int \<Rightarrow> mp_ref list \<Rightarrow> mp_ref list \<Rightarrow> mp_ref list" where
  "find_vacant s k vacant_midplanes [] = vacant_midplanes"
| "find_vacant s k vacant_midplanes (mp # rest) =
     (if int (length vacant_midplanes) = k then vacant_midplanes
      else if MidPlane_is_vacant mp s then find_vacant s k (vacant_midplanes @ [mp]) rest
      else find_vacant s k vacant_midplanes rest)"

text \<open>The admission branch of \<open>schedule\<close>. The queue is \<open>next_job # rest\<close> there, so
  \<open>dequeue\<close> returns \<open>next_job\<close> and leaves \<open>rest\<close>.\<close>

definition admit :: "job_ref \<Rightarrow> job_ref list \<Rightarrow> mp_ref list \<Rightarrow> world \<Rightarrow> world" where
  "admit next_job rest vacant_midplanes s =
     (let s1 = logging INFO (Mira_Find_Vacant (name (jobs s next_job))) s;
          job = next_job;
          s2 = s1\<lparr>queue := rest\<rparr>;
          s3 = Job_assign_midplanes job vacant_midplanes s2;
          s4 = fold (\<lambda>mp. MidPlane_assign_job mp job) vacant_midplanes s3;
          s5 = Job_ready job s4
      in s5\<lparr>running_jobs := running_jobs s5 @ [job]\<rparr>)"

definition schedule :: "world \<Rightarrow> world" where
  "schedule s =
     (case queue s of
        [] \<Rightarrow> s
      | next_job # rest \<Rightarrow>
          (let num_of_requested_nodes = num_of_requested_nodes (jobs s next_job);
               num_of_requested_midplanes = num_of_requested_nodes div 512;
               vacant_midplanes =
                 find_vacant s num_of_requested_midplanes [] (mira_midplanes s)
           in if int (length vacant_midplanes) = num_of_requested_midplanes
              then admit next_job rest vacant_midplanes s
              else s))"

fun free_all :: "mp_ref list \<Rightarrow> world \<Rightarrow> result" where
  "free_all [] s = Inr s"
| "free_all (md # rest) s =
     (case MidPlane_free_up md s of Inl e \<Rightarrow> Inl e | Inr s' \<Rightarrow> free_all rest s')"

text \<open>The body of the \<open>for\<close> loop of \<open>jobs_tick\<close> for the job \<open>j\<close> it has fetched.
  \<open>list.remove\<close> deletes the first occurrence and raises ValueError when there is none.\<close>

definition jobs_tick_body :: "job_ref \<Rightarrow> int \<Rightarrow> world \<Rightarrow> result" where
  "jobs_tick_body j curr_wallclock s =
     (case Job_tick j curr_wallclock s of
        Inl e \<Rightarrow> Inl e
      | Inr s1 \<Rightarrow>
          if Job_is_ended j s1 then
            (case free_all (midplanes (jobs s1 j))
                    (logging INFO (Mira_Clean_Up (name (jobs s1 j))) s1) of
               Inl e \<Rightarrow> Inl e
             | Inr s2 \<Rightarrow>
                 if j \<in> set (running_jobs s2)
                 then Inr (s2\<lparr>running_jobs := remove1 j (running_jobs s2)\<rparr>)
                 else Inl (ValueError, s2))
          else Inr s1)"

text \<open>The \<open>for\<close> loop of \<open>jobs_tick\<close>. Python's list iterator keeps a position
  \<open>i\<close> into the list object itself: each round it stops if \<open>i\<close> has reached the
  current length, else fetches element \<open>i\<close> and moves to \<open>i + 1\<close>. The body removes
  from that same list.\<close>

function jobs_tick_loop :: "nat \<Rightarrow> int \<Rightarrow> world \<Rightarrow> result" where
  "jobs_tick_loop i curr_wallclock s =
     (if i < length (running_jobs s) then
        (case jobs_tick_body (running_jobs s ! i) curr_wallclock s of
           Inl e \<Rightarrow> Inl e
         | Inr s' \<Rightarrow> jobs_tick_loop (Suc i) curr_wallclock s')
      else Inr s)"
  by pat_completeness auto
termination
proof (relation "measure (\<lambda>(i, t, s). length (running_jobs s) - i)", goal_cases)
  case 1
  show ?case by simp
next
  case (2 i t s s')
  have freed: "running_jobs s2 = running_jobs s1" if "free_all ms s1 = Inr s2" for ms s1 s2
    using that
    by (induction ms arbitrary: s1)
       (auto simp: MidPlane_free_up_def upd_mp_def logging_def Let_def
             split: sum.splits option.splits if_splits)
  have "length (running_jobs s') \<le> length (running_jobs s)"
    using 2(2)
    by (auto simp: jobs_tick_body_def Job_tick_def Job_start_def Job_end_def upd_job_def
                   logging_def Let_def length_remove1
             split: sum.splits option.splits if_splits dest!: freed)
  with 2(1) show ?case by simp
qed

declare jobs_tick_loop.simps [simp del]

definition jobs_tick :: "int \<Rightarrow> world \<Rightarrow> result" where
  "jobs_tick curr_wallclock s = jobs_tick_loop 0 curr_wallclock s"

definition inc_wallclock :: "world \<Rightarrow> world" where
  "inc_wallclock s = s\<lparr>simulated_wallclock := simulated_wallclock s + 1\<rparr>"

subsection \<open>class Trace\<close>

text \<open>\<open>Trace.jobs\<close> is kept in Python's order: \<open>jobs[-1]\<close> is \<open>last\<close>, \<open>pop()\<close>
  leaves \<open>butlast\<close>. The result \<open>None\<close> is the call that falls off the end of the method
  (Python returns \<open>None\<close> and the trace is as before); otherwise the popped job comes
  with the world after the pop.\<close>

definition get_job :: "int \<Rightarrow> world \<Rightarrow> (job_ref \<times> world) option" where
  "get_job curr_time s =
     (if length (trace_jobs s) > 0 \<and> submitted_time (jobs s (last (trace_jobs s))) = curr_time
      then Some (last (trace_jobs s), s\<lparr>trace_jobs := butlast (trace_jobs s)\<rparr>)
      else None)"

text \<open>The end of \<open>parse_trace_file\<close>, after the rows have been read into Job objects
  (in file order): a stable sort by decreasing submission time (Python reverses, sorts
  stably, reverses), then the shift that makes the earliest submission time 0. On a
  file without rows \<open>self.jobs[-1]\<close> is an IndexError.\<close>

definition sort_reverse :: "Job list \<Rightarrow> Job list" where
  "sort_reverse js = rev (sort_key submitted_time (rev js))"

definition normalise :: "Job list \<Rightarrow> error + Job list" where
  "normalise js =
     (let sorted_js = sort_reverse js
      in if sorted_js = [] then Inl IndexError
         else (let earliest = submitted_time (last sorted_js)
               in Inr (map (\<lambda>j. j\<lparr>submitted_time := submitted_time j - earliest\<rparr>) sorted_js)))"

text \<open>The world after initialisation: the parsed jobs are the heap, in trace order.\<close>

definition initial :: "Job list \<Rightarrow> world" where
  "initial js = Mira_init (\<lambda>i. js ! i) [0..<length js]"

subsection \<open>The simulation loop\<close>

definition print_len :: "world \<Rightarrow> world" where
  "print_len s = s\<lparr>log := log s @ [Printed (length (trace_jobs s))]\<rparr>"

text \<open>The inner \<open>while new_job is not None\<close> loop, with the \<open>get_job\<close> call before it.\<close>

function arrivals :: "world \<Rightarrow> world" where
  "arrivals s =
     (case get_job (simulated_wallclock s) s of
        None \<Rightarrow> s
      | Some (new_job, s1) \<Rightarrow> arrivals (submit_job new_job (print_len s1)))"
  by pat_completeness auto
termination
  by (relation "measure (\<lambda>s. length (trace_jobs s))")
     (auto simp: get_job_def submit_job_def Job_submit_def upd_job_def logging_def
                 print_len_def Let_def split: if_splits)

declare arrivals.simps [simp del]

definition loop_condition :: "world \<Rightarrow> bool" where
  "loop_condition s =
     (length (trace_jobs s) > 0 \<or> length (queue s) > 0 \<or> length (running_jobs s) > 0)"

text \<open>One round of the outer \<open>while\<close> loop.\<close>

definition iteration :: "world \<Rightarrow> result" where
  "iteration s =
     (let s1 = arrivals s;
          s2 = schedule s1
      in case jobs_tick (simulated_wallclock s2) s2 of
           Inl e \<Rightarrow> Inl e
         | Inr s3 \<Rightarrow> Inr (inc_wallclock s3))"

text \<open>The outer loop has no bound on its rounds, so the model counts them: with
  \<open>n\<close> rounds allowed the run has exited the loop, has died of an exception, or is
  still inside the loop after \<open>n\<close> rounds.\<close>

datatype outcome = Finished world | Aborted error world | Still_Looping world

fun simulation :: "nat \<Rightarrow> world \<Rightarrow> outcome" where
  "simulation n s =
     (if loop_condition s then
        (case n of
           0 \<Rightarrow> Still_Looping s
         | Suc k \<Rightarrow>
             (case iteration s of
                Inl (e, s') \<Rightarrow> Aborted e s'
              | Inr s' \<Rightarrow> simulation k s'))
      else Finished s)"

declare simulation.simps [simp del]

section \<open>Notions used to state the properties\<close>

subsection \<open>Reading a result\<close>

text \<open>The world a call or a run ends in, whether it returned or raised.\<close>

definition world_of :: "result \<Rightarrow> world" where
  "world_of r = (case r of Inl (e, s) \<Rightarrow> s | Inr s \<Rightarrow> s)"

definition state_of :: "outcome \<Rightarrow> world" where
  "state_of r = (case r of Finished s \<Rightarrow> s | Aborted e s \<Rightarrow> s | Still_Looping s \<Rightarrow> s)"

subsection \<open>Midplanes\<close>

text \<open>The vacant midplanes of the machine, in machine order; a midplane as
  \<open>assign_job\<close> leaves it and as \<open>free_up\<close> leaves it.\<close>

definition all_vacant :: "world \<Rightarrow> mp_ref list" where
  "all_vacant s = filter (\<lambda>m. MidPlane_is_vacant m s) (mira_midplanes s)"

definition occupied_by :: "job_ref \<Rightarrow> MidPlane \<Rightarrow> MidPlane" where
  "occupied_by j p = p\<lparr>nodes := map (\<lambda>n. Some j) (nodes p), mp_status := OCCUPIED, mp_job := Some j\<rparr>"

definition freed :: "MidPlane \<Rightarrow> MidPlane" where
  "freed p = p\<lparr>nodes := map (\<lambda>n. None) (nodes p), mp_status := VACANT, mp_job := None\<rparr>"

subsection \<open>What the tick step leaves alone\<close>

text \<open>Ticking and cleaning up change job status and times, midplanes, the running list
  and the log; \<open>same_frame\<close> collects what they never change. The submission time of a
  job is its arrival time.\<close>

definition same_frame :: "world \<Rightarrow> world \<Rightarrow> bool" where
  "same_frame s s' =
     (trace_jobs s' = trace_jobs s \<and> queue s' = queue s \<and> mira_midplanes s' = mira_midplanes s
      \<and> simulated_wallclock s' = simulated_wallclock s
      \<and> (\<forall>j. name (jobs s' j) = name (jobs s j)
              \<and> num_of_requested_nodes (jobs s' j) = num_of_requested_nodes (jobs s j)
              \<and> submitted_time (jobs s' j) = submitted_time (jobs s j)
              \<and> duration (jobs s' j) = duration (jobs s j)
              \<and> midplanes (jobs s' j) = midplanes (jobs s j)))"

definition arrival_time :: "world \<Rightarrow> job_ref \<Rightarrow> int" where
  "arrival_time s j = submitted_time (jobs s j)"

subsection \<open>Invariants of the loop\<close>

text \<open>A running job is READY or RUNNING with an end time, and its midplanes are distinct,
  OCCUPIED and owned by it; no job is in two of trace, queue and running list. The trace is
  popped from its end, so it is ordered when the submission times decrease along it, and
  nothing in it is overdue. A job never fits when it needs more midplanes than the machine
  has.\<close>

definition holds_midplanes :: "world \<Rightarrow> job_ref \<Rightarrow> bool" where
  "holds_midplanes s j =
     ((status (jobs s j) = READY \<or> status (jobs s j) = RUNNING \<and> end_time (jobs s j) \<noteq> None)
      \<and> distinct (midplanes (jobs s j))
      \<and> (\<forall>m\<in>set (midplanes (jobs s j)).
            mp_status (mps s m) = OCCUPIED \<and> mp_job (mps s m) = Some j))"

definition wf_world :: "world \<Rightarrow> bool" where
  "wf_world s =
     (distinct (trace_jobs s @ queue s @ running_jobs s) \<and> distinct (mira_midplanes s)
      \<and> (\<forall>j\<in>set (running_jobs s). holds_midplanes s j))"

definition feed_ordered :: "world \<Rightarrow> bool" where
  "feed_ordered s =
     (sorted (rev (map (arrival_time s) (trace_jobs s)))
      \<and> (\<forall>j\<in>set (trace_jobs s). simulated_wallclock s \<le> arrival_time s j))"

definition never_fits :: "world \<Rightarrow> job_ref \<Rightarrow> bool" where
  "never_fits s b =
     ((b \<in> set (trace_jobs s) \<or> b \<in> set (queue s))
      \<and> int (length (mira_midplanes s)) < num_of_requested_nodes (jobs s b) div 512)"

text \<open>A job that a tick at \<open>t\<close> leaves in the running list, and a job started at
  \<open>t\<close>.\<close>

definition keeps_running :: "int \<Rightarrow> Job \<Rightarrow> bool" where
  "keeps_running t b =
     (case status b of
        READY \<Rightarrow> 0 < duration b
      | RUNNING \<Rightarrow> (case end_time b of None \<Rightarrow> False | Some e \<Rightarrow> t < e)
      | ENDED \<Rightarrow> False
      | _ \<Rightarrow> True)"

definition started_at :: "int \<Rightarrow> Job \<Rightarrow> bool" where
  "started_at t b =
     (status b = RUNNING \<and> start_time b = Some t \<and> end_time b = Some (t + duration b)
      \<and> 0 < duration b)"

subsection \<open>Sample traces and worlds\<close>

text \<open>Jobs submitted at time 0, given by name, duration and requested nodes; the world
  with one such job alone in the queue; that world with every midplane occupied by some
  other job.\<close>

definition sample_job :: "string \<Rightarrow> int \<Rightarrow> int \<Rightarrow> Job" where
  "sample_job nm dur requested = Job_init nm 0 dur requested ''0''"

definition queued_alone :: "int \<Rightarrow> world" where
  "queued_alone requested =
     (initial [sample_job ''A'' 3 requested])\<lparr>trace_jobs := [], queue := [0]\<rparr>"

definition full_machine :: world where
  "full_machine =
     (queued_alone 100)\<lparr>mps := \<lambda>i. occupied_by 7 (MidPlane_init (str i))\<rparr>"

text \<open>Scenario A: one job of 512 nodes and duration 3. A job of 49153 nodes. A job of
  49664 nodes ahead of a job of 512 nodes. Two rows submitted at 100 and 101, before and
  after \<open>normalise\<close>. Two jobs submitted together, with durations 1 and 5, and with
  durations 2 and 1 (the second of each list is popped first).\<close>

definition scenario_A :: "Job list" where
  "scenario_A = [sample_job ''A'' 3 512]"

definition scenario_A_end :: world where
  "scenario_A_end = state_of (simulation (Suc (Suc (Suc (Suc 0)))) (initial scenario_A))"

definition oversize_trace :: "Job list" where
  "oversize_trace = [sample_job ''A'' 0 49153]"

definition blocked_trace :: "Job list" where
  "blocked_trace = [sample_job ''B'' 3 512, sample_job ''A'' 3 49664]"

definition two_arrivals :: "Job list" where
  "two_arrivals = [Job_init ''A'' 100 2 512 ''0'', Job_init ''B'' 101 2 512 ''0'']"

definition two_arrivals_parsed :: "Job list" where
  "two_arrivals_parsed = [Job_init ''B'' 1 2 512 ''0'', Job_init ''A'' 0 2 512 ''0'']"

definition after_first_round :: world where
  "after_first_round = state_of (simulation (Suc 0) (initial two_arrivals_parsed))"

definition skip_trace :: "Job list" where
  "skip_trace = [sample_job ''B'' 5 512, sample_job ''A'' 1 512]"

definition skip_before_tick :: world where
  "skip_before_tick = schedule (arrivals (world_of (iteration (initial skip_trace))))"

definition skip_after_tick :: world where
  "skip_after_tick = world_of (jobs_tick 1 skip_before_tick)"

definition late_end_trace :: "Job list" where
  "late_end_trace = [sample_job ''B'' 1 512, sample_job ''A'' 2 512]"

definition late_end :: world where
  "late_end = state_of (simulation (Suc (Suc (Suc (Suc 0)))) (initial late_end_trace))"

subsection \<open>Measuring the rounds a running job still needs\<close>

text \<open>What \<open>tick\<close> does to a job record when it does not raise; the ticks a job still
  needs at clock \<open>t\<close> before it ends; that number plus the jobs still in the trace, the
  queue and the running list, which bounds the rounds in which the job can be passed
  over. A job that has left trace and queue and holds no midplane. A job asking for
  \<open>- 1\<close> nodes.\<close>

definition tick_job :: "int \<Rightarrow> Job \<Rightarrow> Job" where
  "tick_job t b =
     (let b1 = (if status b = READY
                then b\<lparr>start_time := Some t, status := RUNNING, end_time := Some (t + duration b)\<rparr>
                else b)
      in if status b1 = RUNNING \<and> (case end_time b1 of None \<Rightarrow> False | Some e \<Rightarrow> e \<le> t)
         then b1\<lparr>end_time := Some t, status := ENDED\<rparr> else b1)"

definition remaining :: "int \<Rightarrow> Job \<Rightarrow> nat" where
  "remaining t b =
     (case status b of
        READY \<Rightarrow> nat (duration b) + 1
      | RUNNING \<Rightarrow> (case end_time b of None \<Rightarrow> 0 | Some e \<Rightarrow> nat (e - t + 1))
      | _ \<Rightarrow> 0)"

definition rounds_left :: "world \<Rightarrow> job_ref \<Rightarrow> nat" where
  "rounds_left s j =
     length (trace_jobs s) + length (queue s) + length (running_jobs s)
     + remaining (simulated_wallclock s) (jobs s j)"

definition left_behind :: "world \<Rightarrow> job_ref \<Rightarrow> bool" where
  "left_behind s j =
     (j \<notin> set (trace_jobs s) \<and> j \<notin> set (queue s) \<and> midplanes (jobs s j) = [])"

definition negative_request :: "Job list" where
  "negative_request = [sample_job ''A'' 3 (- 1)]"

section \<open>Lemmas about the operations\<close>

subsection \<open>What each operation reads and writes\<close>

lemma logging_frame [simp]:
  "jobs (logging l m s) = jobs s"
  "mps (logging l m s) = mps s"
  "trace_jobs (logging l m s) = trace_jobs s"
  "queue (logging l m s) = queue s"
  "running_jobs (logging l m s) = running_jobs s"
  "mira_midplanes (logging l m s) = mira_midplanes s"
  "simulated_wallclock (logging l m s) = simulated_wallclock s"
  "log (logging l m s) = log s @ [Logged l m]"
  by (simp_all add: logging_def)

lemma upd_job_frame [simp]:
  "jobs (upd_job j f s) = (jobs s)(j := f (jobs s j))"
  "mps (upd_job j f s) = mps s"
  "trace_jobs (upd_job j f s) = trace_jobs s"
  "queue (upd_job j f s) = queue s"
  "running_jobs (upd_job j f s) = running_jobs s"
  "mira_midplanes (upd_job j f s) = mira_midplanes s"
  "simulated_wallclock (upd_job j f s) = simulated_wallclock s"
  "log (upd_job j f s) = log s"
  by (simp_all add: upd_job_def)

lemma upd_mp_frame [simp]:
  "jobs (upd_mp m f s) = jobs s"
  "mps (upd_mp m f s) = (mps s)(m := f (mps s m))"
  "trace_jobs (upd_mp m f s) = trace_jobs s"
  "queue (upd_mp m f s) = queue s"
  "running_jobs (upd_mp m f s) = running_jobs s"
  "mira_midplanes (upd_mp m f s) = mira_midplanes s"
  "simulated_wallclock (upd_mp m f s) = simulated_wallclock s"
  "log (upd_mp m f s) = log s"
  by (simp_all add: upd_mp_def)

lemma Job_submit_frame [simp]:
  "jobs (Job_submit j t s) = (jobs s)(j := (jobs s j)\<lparr>submitted_time := t, status := QUEUED\<rparr>)"
  "mps (Job_submit j t s) = mps s"
  "trace_jobs (Job_submit j t s) = trace_jobs s"
  "queue (Job_submit j t s) = queue s"
  "running_jobs (Job_submit j t s) = running_jobs s"
  "mira_midplanes (Job_submit j t s) = mira_midplanes s"
  "simulated_wallclock (Job_submit j t s) = simulated_wallclock s"
  by (simp_all add: Job_submit_def Let_def)

lemma Job_start_frame [simp]:
  "jobs (Job_start j t s) =
     (jobs s)(j := (jobs s j)\<lparr>start_time := Some t, status := RUNNING,
                              end_time := Some (t + duration (jobs s j))\<rparr>)"
  "mps (Job_start j t s) = mps s"
  "trace_jobs (Job_start j t s) = trace_jobs s"
  "queue (Job_start j t s) = queue s"
  "running_jobs (Job_start j t s) = running_jobs s"
  "mira_midplanes (Job_start j t s) = mira_midplanes s"
  "simulated_wallclock (Job_start j t s) = simulated_wallclock s"
  by (simp_all add: Job_start_def Let_def)

lemma Job_end_frame [simp]:
  "jobs (Job_end j t s) = (jobs s)(j := (jobs s j)\<lparr>end_time := Some t, status := ENDED\<rparr>)"
  "mps (Job_end j t s) = mps s"
  "trace_jobs (Job_end j t s) = trace_jobs s"
  "queue (Job_end j t s) = queue s"
  "running_jobs (Job_end j t s) = running_jobs s"
  "mira_midplanes (Job_end j t s) = mira_midplanes s"
  "simulated_wallclock (Job_end j t s) = simulated_wallclock s"
  by (simp_all add: Job_end_def Let_def)

lemma Job_assign_midplanes_frame [simp]:
  "jobs (Job_assign_midplanes j ms s) = (jobs s)(j := (jobs s j)\<lparr>midplanes := ms\<rparr>)"
  "mps (Job_assign_midplanes j ms s) = mps s"
  "trace_jobs (Job_assign_midplanes j ms s) = trace_jobs s"
  "queue (Job_assign_midplanes j ms s) = queue s"
  "running_jobs (Job_assign_midplanes j ms s) = running_jobs s"
  "mira_midplanes (Job_assign_midplanes j ms s) = mira_midplanes s"
  "simulated_wallclock (Job_assign_midplanes j ms s) = simulated_wallclock s"
  by (simp_all add: Job_assign_midplanes_def Let_def)

lemma Job_ready_frame [simp]:
  "jobs (Job_ready j s) = (jobs s)(j := (jobs s j)\<lparr>status := READY\<rparr>)"
  "mps (Job_ready j s) = mps s"
  "trace_jobs (Job_ready j s) = trace_jobs s"
  "queue (Job_ready j s) = queue s"
  "running_jobs (Job_ready j s) = running_jobs s"
  "mira_midplanes (Job_ready j s) = mira_midplanes s"
  "simulated_wallclock (Job_ready j s) = simulated_wallclock s"
  by (simp_all add: Job_ready_def Let_def)

lemma MidPlane_assign_job_frame [simp]:
  "jobs (MidPlane_assign_job m j s) = jobs s"
  "mps (MidPlane_assign_job m j s) =
     (mps s)(m := (mps s m)\<lparr>nodes := map (\<lambda>n. Some j) (nodes (mps s m)),
                             mp_status := OCCUPIED, mp_job := Some j\<rparr>)"
  "trace_jobs (MidPlane_assign_job m j s) = trace_jobs s"
  "queue (MidPlane_assign_job m j s) = queue s"
  "running_jobs (MidPlane_assign_job m j s) = running_jobs s"
  "mira_midplanes (MidPlane_assign_job m j s) = mira_midplanes s"
  "simulated_wallclock (MidPlane_assign_job m j s) = simulated_wallclock s"
  by (simp_all add: MidPlane_assign_job_def Let_def)

lemma MidPlane_is_vacant_frame [simp]:
  "MidPlane_is_vacant m (logging l msg s) = MidPlane_is_vacant m s"
  "MidPlane_is_vacant m (upd_job j f s) = MidPlane_is_vacant m s"
  by (simp_all add: MidPlane_is_vacant_def)

text \<open>What \<open>free_up\<close> does on a midplane that has an owner, and on one that has none.\<close>

lemma MidPlane_free_up_owned:
  assumes "mp_job (mps s m) = Some j"
  shows "\<exists>s'. MidPlane_free_up m s = Inr s' \<and> jobs s' = jobs s
           \<and> mps s' = (mps s)(m := (mps s m)\<lparr>nodes := map (\<lambda>n. None) (nodes (mps s m)),
                                              mp_status := VACANT, mp_job := None\<rparr>)
           \<and> trace_jobs s' = trace_jobs s \<and> queue s' = queue s
           \<and> running_jobs s' = running_jobs s \<and> mira_midplanes s' = mira_midplanes s
           \<and> simulated_wallclock s' = simulated_wallclock s"
  using assms by (simp add: MidPlane_free_up_def Let_def)

lemma MidPlane_free_up_Inr:
  assumes "MidPlane_free_up m s = Inr s'"
  shows "jobs s' = jobs s \<and> trace_jobs s' = trace_jobs s \<and> queue s' = queue s
           \<and> running_jobs s' = running_jobs s \<and> mira_midplanes s' = mira_midplanes s
           \<and> simulated_wallclock s' = simulated_wallclock s
           \<and> mps s' = (mps s)(m := (mps s m)\<lparr>nodes := map (\<lambda>n. None) (nodes (mps s m)),
                                              mp_status := VACANT, mp_job := None\<rparr>)
           \<and> mp_job (mps s m) \<noteq> None"
  using assms by (auto simp: MidPlane_free_up_def Let_def split: option.splits if_splits)

subsection \<open>The vacancy search and the scheduler\<close>

lemma find_vacant_eq:
  "find_vacant s k acc ms =
     (if k < int (length acc) then acc @ filter (\<lambda>m. MidPlane_is_vacant m s) ms
      else acc @ take (nat (k - int (length acc))) (filter (\<lambda>m. MidPlane_is_vacant m s) ms))"
proof (induction ms arbitrary: acc)
  case Nil
  show ?case by simp
next
  case (Cons m ms)
  consider (eq) "int (length acc) = k" | (more) "k < int (length acc)" | (less) "int (length acc) < k"
    by linarith
  then show ?case
  proof cases
    case eq
    then show ?thesis by simp
  next
    case more
    with Cons.IH [of acc] Cons.IH [of "acc @ [m]"] show ?thesis by simp
  next
    case less
    show ?thesis
    proof (cases "MidPlane_is_vacant m s")
      case False
      with less Cons.IH [of acc] show ?thesis by simp
    next
      case True
      have "k - int (length acc) = int (Suc (nat (k - int (length acc) - 1)))"
        using less by simp
      then obtain d where d: "k - int (length acc) = int (Suc d)" ..
      then have "k - int (length (acc @ [m])) = int d" by simp
      moreover have "\<not> k < int (length (acc @ [m]))" using less by simp
      ultimately have step: "find_vacant s k (acc @ [m]) ms =
          (acc @ [m]) @ take d (filter (\<lambda>m. MidPlane_is_vacant m s) ms)"
        using Cons.IH [of "acc @ [m]"] by (simp del: length_append)
      have "nat (k - int (length acc)) = Suc d" using d by simp
      with step show ?thesis using True less by (simp del: of_nat_Suc)
    qed
  qed
qed

lemma occupied_by_idem [simp]: "occupied_by j (occupied_by j p) = occupied_by j p"
  by (simp add: occupied_by_def)

lemma fold_assign_frame [simp]:
  "jobs (fold (\<lambda>mp. MidPlane_assign_job mp j) ms s) = jobs s"
  "trace_jobs (fold (\<lambda>mp. MidPlane_assign_job mp j) ms s) = trace_jobs s"
  "queue (fold (\<lambda>mp. MidPlane_assign_job mp j) ms s) = queue s"
  "running_jobs (fold (\<lambda>mp. MidPlane_assign_job mp j) ms s) = running_jobs s"
  "mira_midplanes (fold (\<lambda>mp. MidPlane_assign_job mp j) ms s) = mira_midplanes s"
  "simulated_wallclock (fold (\<lambda>mp. MidPlane_assign_job mp j) ms s) = simulated_wallclock s"
  by (induction ms arbitrary: s; simp)+

lemma fold_assign_mps:
  "mps (fold (\<lambda>mp. MidPlane_assign_job mp j) ms s) m =
     (if m \<in> set ms then occupied_by j (mps s m) else mps s m)"
proof (induction ms arbitrary: s)
  case Nil
  show ?case by simp
next
  case (Cons a ms)
  show ?case
    by (simp add: Cons.IH) (simp add: occupied_by_def)
qed

lemma admit_frame [simp]:
  "jobs (admit j rest ms s) = (jobs s)(j := (jobs s j)\<lparr>midplanes := ms, status := READY\<rparr>)"
  "trace_jobs (admit j rest ms s) = trace_jobs s"
  "queue (admit j rest ms s) = rest"
  "running_jobs (admit j rest ms s) = running_jobs s @ [j]"
  "mira_midplanes (admit j rest ms s) = mira_midplanes s"
  "simulated_wallclock (admit j rest ms s) = simulated_wallclock s"
  by (simp_all add: admit_def Let_def)

lemma admit_mps:
  "mps (admit j rest ms s) m = (if m \<in> set ms then occupied_by j (mps s m) else mps s m)"
  by (simp add: admit_def Let_def fold_assign_mps)

lemma schedule_eq:
  assumes "queue s = j # rest"
  shows "schedule s =
     (if 0 \<le> num_of_requested_nodes (jobs s j) div 512
         \<and> num_of_requested_nodes (jobs s j) div 512 \<le> int (length (all_vacant s))
      then admit j rest (take (nat (num_of_requested_nodes (jobs s j) div 512)) (all_vacant s)) s
      else s)"
proof -
  let ?k = "num_of_requested_nodes (jobs s j) div 512"
  have fv: "find_vacant s ?k [] (mira_midplanes s) =
      (if ?k < 0 then all_vacant s else take (nat ?k) (all_vacant s))"
    by (simp add: find_vacant_eq all_vacant_def)
  show ?thesis
  proof (cases "?k < 0")
    case True
    then have "int (length (all_vacant s)) \<noteq> ?k" by linarith
    with True fv assms show ?thesis by (simp add: schedule_def Let_def)
  next
    case False
    then have "(int (length (take (nat ?k) (all_vacant s))) = ?k) = (?k \<le> int (length (all_vacant s)))"
      by auto
    with False fv assms show ?thesis by (simp add: schedule_def Let_def)
  qed
qed

lemma schedule_empty: "queue s = [] \<Longrightarrow> schedule s = s"
  by (simp add: schedule_def)

subsection \<open>Ticking the running jobs\<close>

lemma same_frame_refl [simp]: "same_frame s s"
  by (simp add: same_frame_def)

lemma same_frame_trans: "same_frame s s1 \<Longrightarrow> same_frame s1 s2 \<Longrightarrow> same_frame s s2"
  by (simp add: same_frame_def)

lemma Job_tick_READY:
  assumes "status (jobs s j) = READY"
  shows "Job_tick j t s =
     (if duration (jobs s j) \<le> 0 then Inr (Job_end j t (Job_start j t s))
      else Inr (Job_start j t s))"
  using assms by (simp add: Job_tick_def Let_def)

lemma Job_tick_RUNNING:
  assumes "status (jobs s j) = RUNNING" and "end_time (jobs s j) = Some e"
  shows "Job_tick j t s = (if e \<le> t then Inr (Job_end j t s) else Inr s)"
  using assms by (simp add: Job_tick_def Let_def)

lemma Job_tick_other:
  assumes "status (jobs s j) \<noteq> READY" and "status (jobs s j) \<noteq> RUNNING"
  shows "Job_tick j t s = Inr s"
  using assms by (simp add: Job_tick_def Let_def)

lemma Job_tick_Inr:
  assumes "Job_tick j t s = Inr s'"
  shows "mps s' = mps s \<and> running_jobs s' = running_jobs s \<and> same_frame s s'
         \<and> (\<forall>j'. j' \<noteq> j \<longrightarrow> jobs s' j' = jobs s j')"
  using assms
  by (auto simp: Job_tick_def Let_def same_frame_def split: if_splits option.splits)

lemma free_all_Inr:
  assumes "free_all ms s = Inr s'"
  shows "jobs s' = jobs s \<and> running_jobs s' = running_jobs s \<and> same_frame s s'
         \<and> (\<forall>m. m \<notin> set ms \<longrightarrow> mps s' m = mps s m)"
  using assms
proof (induction ms arbitrary: s)
  case Nil
  then show ?case by simp
next
  case (Cons m ms)
  from Cons.prems obtain s1 where s1: "MidPlane_free_up m s = Inr s1" and rest: "free_all ms s1 = Inr s'"
    by (auto split: sum.splits)
  from MidPlane_free_up_Inr [OF s1] Cons.IH [OF rest] show ?case
    by (auto simp: same_frame_def)
qed

lemma free_all_owned:
  assumes "distinct ms" and "\<forall>m\<in>set ms. mp_job (mps s m) \<noteq> None"
  shows "\<exists>s'. free_all ms s = Inr s' \<and> (\<forall>m. mps s' m = (if m \<in> set ms then freed (mps s m) else mps s m))"
  using assms
proof (induction ms arbitrary: s)
  case Nil
  then show ?case by simp
next
  case (Cons m ms)
  from Cons.prems obtain j where j: "mp_job (mps s m) = Some j" by auto
  from MidPlane_free_up_owned [OF j] obtain s1 where
    s1: "MidPlane_free_up m s = Inr s1" and
    m1: "mps s1 = (mps s)(m := freed (mps s m))"
    by (auto simp: freed_def)
  have "\<forall>x\<in>set ms. mp_job (mps s1 x) \<noteq> None"
    using Cons.prems m1 by auto
  with Cons.IH [of s1] Cons.prems obtain s' where
    s': "free_all ms s1 = Inr s'" and
    m': "\<forall>x. mps s' x = (if x \<in> set ms then freed (mps s1 x) else mps s1 x)"
    by auto
  from s1 s' have "free_all (m # ms) s = Inr s'" by simp
  moreover have "\<forall>x. mps s' x = (if x \<in> set (m # ms) then freed (mps s x) else mps s x)"
    using m' m1 Cons.prems by auto
  ultimately show ?case by blast
qed

lemma jobs_tick_body_Inr:
  assumes "jobs_tick_body j t s = Inr s'"
  shows "same_frame s s' \<and> (\<forall>j'. j' \<noteq> j \<longrightarrow> jobs s' j' = jobs s j')
         \<and> (running_jobs s' = running_jobs s \<and> status (jobs s' j) \<noteq> ENDED
              \<or> running_jobs s' = remove1 j (running_jobs s) \<and> status (jobs s' j) = ENDED)"
proof -
  from assms obtain s1 where s1: "Job_tick j t s = Inr s1"
    by (auto simp: jobs_tick_body_def split: sum.splits)
  note f1 = Job_tick_Inr [OF s1]
  show ?thesis
  proof (cases "Job_is_ended j s1")
    case False
    with assms s1 have "s' = s1" by (simp add: jobs_tick_body_def)
    with f1 False show ?thesis by (simp add: Job_is_ended_def)
  next
    case True
    with assms s1 obtain s2 where
      s2: "free_all (midplanes (jobs s1 j)) (logging INFO (Mira_Clean_Up (name (jobs s1 j))) s1) = Inr s2"
      and s': "s' = s2\<lparr>running_jobs := remove1 j (running_jobs s2)\<rparr>"
      by (auto simp: jobs_tick_body_def split: sum.splits if_splits)
    from free_all_Inr [OF s2] f1 True s' show ?thesis
      by (auto simp: same_frame_def Job_is_ended_def)
  qed
qed

lemma jobs_tick_loop_invariant:
  assumes "jobs_tick_loop i t s = Inr s'" and "P s"
    and "\<And>j s s'. P s \<Longrightarrow> j \<in> set (running_jobs s) \<Longrightarrow> jobs_tick_body j t s = Inr s' \<Longrightarrow> P s'"
  shows "P s'"
  using assms
proof (induction i t s rule: jobs_tick_loop.induct)
  case (1 i t s)
  note step = "1.prems"(3)
  show ?case
  proof (cases "i < length (running_jobs s)")
    case False
    with "1.prems"(1,2) show ?thesis by (simp add: jobs_tick_loop.simps)
  next
    case True
    with "1.prems"(1) obtain s1 where
      b: "jobs_tick_body (running_jobs s ! i) t s = Inr s1" and
      r: "jobs_tick_loop (Suc i) t s1 = Inr s'"
      by (subst (asm) jobs_tick_loop.simps) (auto split: sum.splits)
    from True have "running_jobs s ! i \<in> set (running_jobs s)" by simp
    from step [OF "1.prems"(2) this b] have p1: "P s1" .
    show ?thesis
      by (rule "1.IH" [OF True b r p1]) (blast intro: step)
  qed
qed

lemma jobs_tick_loop_total:
  assumes "I s"
    and "\<And>j s. I s \<Longrightarrow> j \<in> set (running_jobs s) \<Longrightarrow> \<exists>s'. jobs_tick_body j t s = Inr s' \<and> I s'"
  shows "\<exists>s'. jobs_tick_loop i t s = Inr s' \<and> I s'"
  using assms
proof (induction i t s rule: jobs_tick_loop.induct)
  case (1 i t s)
  note step = "1.prems"(2)
  show ?case
  proof (cases "i < length (running_jobs s)")
    case False
    with "1.prems"(1) show ?thesis by (simp add: jobs_tick_loop.simps)
  next
    case True
    then have "running_jobs s ! i \<in> set (running_jobs s)" by simp
    from step [OF "1.prems"(1) this] obtain s1 where
      b: "jobs_tick_body (running_jobs s ! i) t s = Inr s1" and i1: "I s1" by blast
    have "\<exists>s'. jobs_tick_loop (Suc i) t s1 = Inr s' \<and> I s'"
      by (rule "1.IH" [OF True b i1]) (blast intro: step)
    then obtain s' where "jobs_tick_loop (Suc i) t s1 = Inr s'" "I s'"
      by blast
    with True b show ?thesis by (subst jobs_tick_loop.simps) auto
  qed
qed

subsection \<open>Running the model on given traces\<close>

text \<open>Unfolding \<open>range(96)\<close> into numerals, for running the simulation on given traces.\<close>

lemma upt_0_numeral: "[0..<numeral n] = 0 # [Suc 0..<numeral n]"
  by (simp add: upt_rec [of 0])

lemma upt_1_numeral:
  "[Suc 0..<numeral n] = (if Suc 0 < numeral n then Suc 0 # [2..<numeral n] else [])"
  by (simp add: upt_rec [of "Suc 0"] numeral_2_eq_2)

lemmas world_defs = initial_def Mira_init_def MidPlane_init_def sample_job_def Job_init_def
  queued_alone_def upt_0_numeral upt_1_numeral

lemmas run_defs = world_defs
  MidPlane_free_up_def MidPlane_is_vacant_def upd_mp_def logging_def Let_def
  MidPlane_assign_job_def upd_job_def iteration_def arrivals.simps get_job_def submit_job_def
  print_len_def Job_submit_def schedule_def admit_def Job_assign_midplanes_def Job_ready_def
  jobs_tick_def jobs_tick_loop.simps jobs_tick_body_def Job_tick_def Job_start_def Job_end_def
  Job_is_ended_def inc_wallclock_def loop_condition_def simulation.simps

subsection \<open>The arrival loop\<close>

lemma submit_job_frame [simp]:
  "jobs (submit_job j s) =
     (jobs s)(j := (jobs s j)\<lparr>submitted_time := simulated_wallclock s, status := QUEUED\<rparr>)"
  "mps (submit_job j s) = mps s"
  "trace_jobs (submit_job j s) = trace_jobs s"
  "queue (submit_job j s) = queue s @ [j]"
  "running_jobs (submit_job j s) = running_jobs s"
  "mira_midplanes (submit_job j s) = mira_midplanes s"
  "simulated_wallclock (submit_job j s) = simulated_wallclock s"
  by (simp_all add: submit_job_def)

lemma print_len_frame [simp]:
  "jobs (print_len s) = jobs s"
  "mps (print_len s) = mps s"
  "trace_jobs (print_len s) = trace_jobs s"
  "queue (print_len s) = queue s"
  "running_jobs (print_len s) = running_jobs s"
  "mira_midplanes (print_len s) = mira_midplanes s"
  "simulated_wallclock (print_len s) = simulated_wallclock s"
  by (simp_all add: print_len_def)

lemma get_job_None:
  "get_job t s = None \<longleftrightarrow> (trace_jobs s = [] \<or> arrival_time s (last (trace_jobs s)) \<noteq> t)"
  by (auto simp: get_job_def arrival_time_def)

lemma get_job_Some:
  "get_job t s = Some (j, s1) \<longleftrightarrow>
     (trace_jobs s \<noteq> [] \<and> j = last (trace_jobs s) \<and> arrival_time s j = t
      \<and> s1 = s\<lparr>trace_jobs := butlast (trace_jobs s)\<rparr>)"
  by (auto simp: get_job_def arrival_time_def)

text \<open>The arrival loop pulls the longest run of jobs at the end of the trace whose
  submission time is the clock, last first.\<close>

lemma arrivals_pulls:
  "\<exists>due. trace_jobs s = trace_jobs (arrivals s) @ due
        \<and> queue (arrivals s) = queue s @ rev due
        \<and> (\<forall>j\<in>set due. arrival_time s j = simulated_wallclock s)
        \<and> (trace_jobs (arrivals s) = []
             \<or> arrival_time s (last (trace_jobs (arrivals s))) \<noteq> simulated_wallclock s)
        \<and> (\<forall>j. jobs (arrivals s) j =
               (if j \<in> set due then (jobs s j)\<lparr>status := QUEUED\<rparr> else jobs s j))
        \<and> mps (arrivals s) = mps s \<and> running_jobs (arrivals s) = running_jobs s
        \<and> mira_midplanes (arrivals s) = mira_midplanes s
        \<and> simulated_wallclock (arrivals s) = simulated_wallclock s"
proof (induction s rule: arrivals.induct)
  case (1 s)
  show ?case
  proof (cases "get_job (simulated_wallclock s) s")
    case None
    then have "arrivals s = s" by (subst arrivals.simps) simp
    with None show ?thesis by (simp add: get_job_None)
  next
    case (Some p)
    obtain x s1 where p: "p = (x, s1)" by (cases p)
    let ?s2 = "submit_job x (print_len s1)"
    from Some p have g: "get_job (simulated_wallclock s) s = Some (x, s1)" by simp
    then have ne: "trace_jobs s \<noteq> []" and x: "x = last (trace_jobs s)"
      and tx: "arrival_time s x = simulated_wallclock s"
      and s1: "s1 = s\<lparr>trace_jobs := butlast (trace_jobs s)\<rparr>"
      by (auto simp: get_job_Some)
    have a: "arrivals s = arrivals ?s2" using g by (subst arrivals.simps) simp
    have same_time: "arrival_time ?s2 j = arrival_time s j" for j
      using tx s1 by (simp add: arrival_time_def)
    have clock: "simulated_wallclock ?s2 = simulated_wallclock s" using s1 by simp
    from "1.IH" [OF g refl] obtain due where
      d1: "trace_jobs ?s2 = trace_jobs (arrivals ?s2) @ due" and
      d2: "queue (arrivals ?s2) = queue ?s2 @ rev due" and
      d3: "\<forall>j\<in>set due. arrival_time ?s2 j = simulated_wallclock ?s2" and
      d4: "trace_jobs (arrivals ?s2) = []
             \<or> arrival_time ?s2 (last (trace_jobs (arrivals ?s2))) \<noteq> simulated_wallclock ?s2" and
      d5: "\<forall>j. jobs (arrivals ?s2) j =
               (if j \<in> set due then (jobs ?s2 j)\<lparr>status := QUEUED\<rparr> else jobs ?s2 j)" and
      d6: "mps (arrivals ?s2) = mps ?s2" "running_jobs (arrivals ?s2) = running_jobs ?s2"
          "mira_midplanes (arrivals ?s2) = mira_midplanes ?s2"
          "simulated_wallclock (arrivals ?s2) = simulated_wallclock ?s2"
      by blast
    have "trace_jobs s = trace_jobs ?s2 @ [x]"
      using ne x s1 by simp
    then have t: "trace_jobs s = trace_jobs (arrivals s) @ (due @ [x])"
      using d1 a by simp
    have q: "queue (arrivals s) = queue s @ rev (due @ [x])"
      using d2 a s1 by simp
    have due_time: "\<forall>j\<in>set (due @ [x]). arrival_time s j = simulated_wallclock s"
      using d3 tx same_time clock by simp
    have stop: "trace_jobs (arrivals s) = []
             \<or> arrival_time s (last (trace_jobs (arrivals s))) \<noteq> simulated_wallclock s"
      using d4 a same_time clock by simp
    have heap: "\<forall>j. jobs (arrivals s) j =
               (if j \<in> set (due @ [x]) then (jobs s j)\<lparr>status := QUEUED\<rparr> else jobs s j)"
    proof
      fix j
      have "(jobs s x)\<lparr>submitted_time := simulated_wallclock s\<rparr> = jobs s x"
        using tx by (simp add: arrival_time_def)
      then show "jobs (arrivals s) j =
               (if j \<in> set (due @ [x]) then (jobs s j)\<lparr>status := QUEUED\<rparr> else jobs s j)"
        using d5 a s1 by (auto simp: fun_upd_def)
    qed
    have rest: "mps (arrivals s) = mps s \<and> running_jobs (arrivals s) = running_jobs s
        \<and> mira_midplanes (arrivals s) = mira_midplanes s
        \<and> simulated_wallclock (arrivals s) = simulated_wallclock s"
      using d6 a s1 by simp
    from t q due_time stop heap rest show ?thesis by blast
  qed
qed

subsection \<open>Well-formed worlds: no round raises\<close>

lemma wf_initial: "wf_world (initial js)"
  by (simp add: wf_world_def initial_def Mira_init_def)

lemma wf_arrivals:
  assumes "wf_world s"
  shows "wf_world (arrivals s)"
proof -
  from arrivals_pulls [of s] obtain due where
    t: "trace_jobs s = trace_jobs (arrivals s) @ due" and
    q: "queue (arrivals s) = queue s @ rev due" and
    h: "\<forall>j. jobs (arrivals s) j =
               (if j \<in> set due then (jobs s j)\<lparr>status := QUEUED\<rparr> else jobs s j)" and
    r: "mps (arrivals s) = mps s" "running_jobs (arrivals s) = running_jobs s"
       "mira_midplanes (arrivals s) = mira_midplanes s"
    by blast
  from assms have d: "distinct (trace_jobs (arrivals s) @ due @ queue s @ running_jobs s)"
    by (simp add: wf_world_def t)
  then have d': "distinct (trace_jobs (arrivals s) @ queue (arrivals s) @ running_jobs (arrivals s))"
    by (auto simp: q r)
  have "holds_midplanes (arrivals s) j" if "j \<in> set (running_jobs s)" for j
  proof -
    from d that have "j \<notin> set due" by auto
    with h have "jobs (arrivals s) j = jobs s j" by simp
    moreover from assms that have "holds_midplanes s j" by (simp add: wf_world_def)
    ultimately show ?thesis by (simp add: holds_midplanes_def r)
  qed
  with d' assms show ?thesis by (simp add: wf_world_def r)
qed

lemma never_fits_arrivals:
  assumes "never_fits s b"
  shows "never_fits (arrivals s) b"
proof -
  from arrivals_pulls [of s] obtain due where
    t: "trace_jobs s = trace_jobs (arrivals s) @ due" and
    q: "queue (arrivals s) = queue s @ rev due" and
    h: "\<forall>j. jobs (arrivals s) j =
               (if j \<in> set due then (jobs s j)\<lparr>status := QUEUED\<rparr> else jobs s j)" and
    r: "mira_midplanes (arrivals s) = mira_midplanes s"
    by blast
  from h have "num_of_requested_nodes (jobs (arrivals s) b) = num_of_requested_nodes (jobs s b)"
    by simp
  moreover from assms have "b \<in> set (trace_jobs (arrivals s)) \<or> b \<in> set (queue (arrivals s))"
    by (auto simp: never_fits_def t q)
  ultimately show ?thesis using assms by (simp add: never_fits_def r)
qed

lemma length_all_vacant: "length (all_vacant s) \<le> length (mira_midplanes s)"
  by (simp add: all_vacant_def)

lemma wf_schedule:
  assumes "wf_world s"
  shows "wf_world (schedule s)"
proof (cases "queue s")
  case Nil
  with assms show ?thesis by (simp add: schedule_empty)
next
  case (Cons j rest)
  let ?k = "num_of_requested_nodes (jobs s j) div 512"
  let ?ms = "take (nat ?k) (all_vacant s)"
  show ?thesis
  proof (cases "0 \<le> ?k \<and> ?k \<le> int (length (all_vacant s))")
    case False
    with assms schedule_eq [OF Cons] show ?thesis by auto
  next
    case True
    with schedule_eq [OF Cons] have sch: "schedule s = admit j rest ?ms s" by simp
    from assms Cons have dj: "distinct (trace_jobs s @ rest @ running_jobs s @ [j])"
      by (auto simp: wf_world_def)
    have dms: "distinct ?ms"
      using assms by (simp add: wf_world_def all_vacant_def distinct_take)
    have vac: "mp_status (mps s m) = VACANT" if "m \<in> set ?ms" for m
      using that by (auto dest!: in_set_takeD simp: all_vacant_def MidPlane_is_vacant_def)
    have new: "holds_midplanes (admit j rest ?ms s) j"
      using dms by (simp add: holds_midplanes_def admit_mps occupied_by_def)
    have old: "holds_midplanes (admit j rest ?ms s) x" if x: "x \<in> set (running_jobs s)" for x
    proof -
      from dj x have "x \<noteq> j" by auto
      moreover from assms x have hx: "holds_midplanes s x" by (simp add: wf_world_def)
      moreover have "m \<notin> set ?ms" if "m \<in> set (midplanes (jobs s x))" for m
        using hx that vac [of m] by (auto simp: holds_midplanes_def)
      ultimately show ?thesis by (simp add: holds_midplanes_def admit_mps)
    qed
    from dj new old assms show ?thesis
      unfolding sch by (auto simp: wf_world_def)
  qed
qed

lemma never_fits_schedule:
  assumes "never_fits s b"
  shows "never_fits (schedule s) b"
proof (cases "queue s")
  case Nil
  with assms show ?thesis by (simp add: schedule_empty)
next
  case (Cons j rest)
  let ?k = "num_of_requested_nodes (jobs s j) div 512"
  show ?thesis
  proof (cases "0 \<le> ?k \<and> ?k \<le> int (length (all_vacant s))")
    case False
    with assms schedule_eq [OF Cons] show ?thesis by auto
  next
    case True
    with schedule_eq [OF Cons] have
      sch: "schedule s = admit j rest (take (nat ?k) (all_vacant s)) s" by simp
    from True length_all_vacant [of s] have "?k \<le> int (length (mira_midplanes s))" by linarith
    with assms have "b \<noteq> j" by (auto simp: never_fits_def)
    with assms Cons show ?thesis unfolding sch by (auto simp: never_fits_def)
  qed
qed

lemma Job_tick_ok:
  assumes "status (jobs s j) = READY \<or> status (jobs s j) = RUNNING \<and> end_time (jobs s j) \<noteq> None"
  shows "\<exists>s1. Job_tick j t s = Inr s1
           \<and> (status (jobs s1 j) = RUNNING \<and> end_time (jobs s1 j) \<noteq> None
                \<or> status (jobs s1 j) = ENDED)"
  using assms by (auto simp: Job_tick_READY Job_tick_RUNNING)

lemma wf_body:
  assumes wf: "wf_world s" and j: "j \<in> set (running_jobs s)"
  shows "\<exists>s'. jobs_tick_body j t s = Inr s' \<and> wf_world s'"
proof -
  from wf j have hj: "holds_midplanes s j" by (simp add: wf_world_def)
  then obtain s1 where s1: "Job_tick j t s = Inr s1" and
    st: "status (jobs s1 j) = RUNNING \<and> end_time (jobs s1 j) \<noteq> None \<or> status (jobs s1 j) = ENDED"
    using Job_tick_ok [of s j t] by (auto simp: holds_midplanes_def)
  from Job_tick_Inr [OF s1] have
    m1: "mps s1 = mps s" and r1: "running_jobs s1 = running_jobs s" and f1: "same_frame s s1" and
    o1: "\<forall>x. x \<noteq> j \<longrightarrow> jobs s1 x = jobs s x"
    by simp_all
  from f1 have mj: "midplanes (jobs s1 j) = midplanes (jobs s j)" by (simp add: same_frame_def)
  have keep: "holds_midplanes s1 x" if "x \<in> set (running_jobs s)" "x \<noteq> j" for x
    using that wf o1 m1 by (simp add: wf_world_def holds_midplanes_def)
  show ?thesis
  proof (cases "status (jobs s1 j) = ENDED")
    case False
    with s1 have b: "jobs_tick_body j t s = Inr s1"
      by (simp add: jobs_tick_body_def Job_is_ended_def)
    from False st hj mj m1 have "holds_midplanes s1 j" by (simp add: holds_midplanes_def)
    with keep have "\<forall>x\<in>set (running_jobs s1). holds_midplanes s1 x" by (auto simp: r1)
    with wf f1 r1 have "wf_world s1" by (simp add: wf_world_def same_frame_def)
    with b show ?thesis by blast
  next
    case True
    let ?ms = "midplanes (jobs s1 j)"
    let ?s1' = "logging INFO (Mira_Clean_Up (name (jobs s1 j))) s1"
    from hj mj m1 have "distinct ?ms" and own: "\<forall>m\<in>set ?ms. mp_job (mps ?s1' m) = Some j"
      by (simp_all add: holds_midplanes_def)
    then have "\<forall>m\<in>set ?ms. mp_job (mps ?s1' m) \<noteq> None" by simp
    from free_all_owned [OF \<open>distinct ?ms\<close> this] obtain s2 where
      s2: "free_all ?ms ?s1' = Inr s2" and
      m2: "\<forall>m. mps s2 m = (if m \<in> set ?ms then freed (mps ?s1' m) else mps ?s1' m)"
      by blast
    from free_all_Inr [OF s2] have
      j2: "jobs s2 = jobs s1" and r2: "running_jobs s2 = running_jobs s" and f2: "same_frame s1 s2"
      by (simp_all add: r1 same_frame_def)
    let ?s' = "s2\<lparr>running_jobs := remove1 j (running_jobs s2)\<rparr>"
    from s1 True s2 j r2 have b: "jobs_tick_body j t s = Inr ?s'"
      by (simp add: jobs_tick_body_def Job_is_ended_def)
    from wf have dr: "distinct (running_jobs s)" by (simp add: wf_world_def)
    have "holds_midplanes ?s' x" if x: "x \<in> set (remove1 j (running_jobs s))" for x
    proof -
      from x dr have xr: "x \<in> set (running_jobs s)" and xj: "x \<noteq> j" by auto
      from keep [OF xr xj] have hx: "holds_midplanes s1 x" .
      have "m \<notin> set ?ms" if "m \<in> set (midplanes (jobs s1 x))" for m
        using hx that own xj by (auto simp: holds_midplanes_def)
      with hx m2 j2 show ?thesis by (simp add: holds_midplanes_def)
    qed
    moreover have "distinct (trace_jobs ?s' @ queue ?s' @ running_jobs ?s')"
      using wf f1 f2 r2 by (auto simp: wf_world_def same_frame_def dest: notin_set_remove1)
    moreover have "distinct (mira_midplanes ?s')"
      using wf f1 f2 by (simp add: wf_world_def same_frame_def)
    ultimately have "wf_world ?s'" by (simp add: wf_world_def r2)
    with b show ?thesis by blast
  qed
qed

lemma never_fits_same_frame:
  assumes "never_fits s b" and "same_frame s s'"
  shows "never_fits s' b"
  using assms by (simp add: never_fits_def same_frame_def)

lemma wf_jobs_tick:
  assumes "wf_world s" and "never_fits s b"
  shows "\<exists>s'. jobs_tick t s = Inr s' \<and> wf_world s' \<and> never_fits s' b"
proof -
  have "\<exists>s'. jobs_tick_loop 0 t s = Inr s' \<and> (wf_world s' \<and> never_fits s' b)"
  proof (rule jobs_tick_loop_total)
    show "wf_world s \<and> never_fits s b" using assms by simp
  next
    fix j x
    assume i: "wf_world x \<and> never_fits x b" and j: "j \<in> set (running_jobs x)"
    from wf_body [of x j t] i j obtain x' where
      b: "jobs_tick_body j t x = Inr x'" and w: "wf_world x'" by blast
    from jobs_tick_body_Inr [OF b] i have "never_fits x' b"
      by (blast intro: never_fits_same_frame)
    with b w show "\<exists>s'. jobs_tick_body j t x = Inr s' \<and> (wf_world s' \<and> never_fits s' b)"
      by blast
  qed
  then show ?thesis by (simp add: jobs_tick_def)
qed

lemma wf_iteration:
  assumes "wf_world s" and "never_fits s b"
  shows "\<exists>s'. iteration s = Inr s' \<and> wf_world s' \<and> never_fits s' b"
proof -
  let ?s2 = "schedule (arrivals s)"
  have "wf_world ?s2" "never_fits ?s2 b"
    using assms by (simp_all add: wf_arrivals wf_schedule never_fits_arrivals never_fits_schedule)
  from wf_jobs_tick [OF this, of "simulated_wallclock ?s2"] obtain s3 where
    s3: "jobs_tick (simulated_wallclock ?s2) ?s2 = Inr s3" and "wf_world s3" "never_fits s3 b"
    by blast
  then have "wf_world (inc_wallclock s3)" "never_fits (inc_wallclock s3) b"
    by (simp_all add: inc_wallclock_def wf_world_def never_fits_def holds_midplanes_def)
  with s3 show ?thesis by (simp add: iteration_def Let_def)
qed

lemma never_fits_forever:
  assumes "wf_world s" and "never_fits s b"
  shows "\<exists>s'. simulation n s = Still_Looping s' \<and> wf_world s' \<and> never_fits s' b"
  using assms
proof (induction n arbitrary: s)
  case 0
  then have "loop_condition s" by (auto simp: loop_condition_def never_fits_def)
  with 0 show ?case by (simp add: simulation.simps)
next
  case (Suc n)
  then have c: "loop_condition s" by (auto simp: loop_condition_def never_fits_def)
  from wf_iteration [OF Suc.prems] obtain s1 where
    s1: "iteration s = Inr s1" and w: "wf_world s1" "never_fits s1 b" by blast
  from Suc.IH [OF w] obtain s' where
    "simulation n s1 = Still_Looping s'" "wf_world s'" "never_fits s' b" by blast
  with c s1 show ?case by (subst simulation.simps) simp
qed

lemma jobs_tick_body_jobs:
  assumes "jobs_tick_body j t s = Inr s'" and "Job_tick j t s = Inr s1"
  shows "jobs s' = jobs s1"
proof (cases "Job_is_ended j s1")
  case False
  with assms show ?thesis by (simp add: jobs_tick_body_def)
next
  case True
  with assms obtain s2 where
    s2: "free_all (midplanes (jobs s1 j)) (logging INFO (Mira_Clean_Up (name (jobs s1 j))) s1) = Inr s2"
    and s': "s' = s2\<lparr>running_jobs := remove1 j (running_jobs s2)\<rparr>"
    by (auto simp: jobs_tick_body_def split: sum.splits if_splits)
  from free_all_Inr [OF s2] s' show ?thesis by simp
qed

lemma world_of_Inr: "\<not> isl r \<Longrightarrow> r = Inr (world_of r)"
  by (cases r) (simp_all add: world_of_def)

lemma jobs_tick_frame:
  assumes "jobs_tick t s = Inr s'"
  shows "same_frame s s' \<and> set (running_jobs s') \<subseteq> set (running_jobs s)"
proof (rule jobs_tick_loop_invariant [where P = "\<lambda>x. same_frame s x \<and> set (running_jobs x) \<subseteq> set (running_jobs s)"])
  show "jobs_tick_loop 0 t s = Inr s'" using assms by (simp add: jobs_tick_def)
  show "same_frame s s \<and> set (running_jobs s) \<subseteq> set (running_jobs s)" by simp
next
  fix j x x'
  assume p: "same_frame s x \<and> set (running_jobs x) \<subseteq> set (running_jobs s)"
    and b: "jobs_tick_body j t x = Inr x'"
  from jobs_tick_body_Inr [OF b] have f: "same_frame x x'"
    and r: "running_jobs x' = running_jobs x \<or> running_jobs x' = remove1 j (running_jobs x)"
    by auto
  from r have "set (running_jobs x') \<subseteq> set (running_jobs x)"
    using set_remove1_subset [of j "running_jobs x"] by auto
  with p f show "same_frame s x' \<and> set (running_jobs x') \<subseteq> set (running_jobs s)"
    by (blast intro: same_frame_trans)
qed

lemma arrivals_frame [simp]:
  "mps (arrivals s) = mps s"
  "running_jobs (arrivals s) = running_jobs s"
  "mira_midplanes (arrivals s) = mira_midplanes s"
  "simulated_wallclock (arrivals s) = simulated_wallclock s"
  using arrivals_pulls [of s] by auto

subsection \<open>The order of the trace\<close>

lemma sorted_rev_last_le:
  assumes "sorted (rev (map f xs))" and "xs \<noteq> []" and "x \<in> set xs"
  shows "f (last xs) \<le> f x"
proof -
  from assms(2) obtain ys y where xs: "xs = ys @ [y]" by (cases xs rule: rev_cases) auto
  with assms(1,3) show ?thesis by auto
qed

lemma sort_reverse_sorted: "sorted (rev (map submitted_time (sort_reverse js)))"
  by (simp add: sort_reverse_def rev_map)

lemma normalise_ordered:
  assumes "normalise rows = Inr js"
  shows "sorted (rev (map submitted_time js)) \<and> (\<forall>j\<in>set js. 0 \<le> submitted_time j)"
proof -
  let ?S = "sort_reverse rows"
  let ?e = "submitted_time (last ?S)"
  from assms have ne: "?S \<noteq> []"
    and js: "js = map (\<lambda>j. j\<lparr>submitted_time := submitted_time j - ?e\<rparr>) ?S"
    by (auto simp: normalise_def Let_def split: if_splits)
  have m: "map submitted_time js = map (\<lambda>x. x - ?e) (map submitted_time ?S)"
    by (simp add: js comp_def)
  have "sorted (map (\<lambda>x. x - ?e) (rev (map submitted_time ?S)))"
    using sort_reverse_sorted [of rows]
    by (simp add: sorted_wrt_map)
  then have s: "sorted (rev (map submitted_time js))"
    by (simp add: m rev_map)
  have "0 \<le> submitted_time j" if "j \<in> set js" for j
  proof -
    from that js obtain x where x: "x \<in> set ?S" and j: "submitted_time j = submitted_time x - ?e"
      by auto
    from sorted_rev_last_le [OF sort_reverse_sorted ne x] j show ?thesis by simp
  qed
  with s show ?thesis by blast
qed

lemma feed_ordered_initial:
  assumes "normalise rows = Inr js"
  shows "feed_ordered (initial js)"
proof -
  have tr: "trace_jobs (initial js) = [0..<length js]"
    and c: "simulated_wallclock (initial js) = 0"
    and at: "arrival_time (initial js) i = submitted_time (js ! i)" for i
    by (simp_all add: initial_def Mira_init_def arrival_time_def)
  have m: "map (arrival_time (initial js)) (trace_jobs (initial js)) = map submitted_time js"
    unfolding tr by (rule nth_equalityI) (simp_all add: at)
  from normalise_ordered [OF assms] have
    s: "sorted (rev (map submitted_time js))" and p: "\<forall>j\<in>set js. 0 \<le> submitted_time j"
    by simp_all
  have "simulated_wallclock (initial js) \<le> arrival_time (initial js) i"
    if "i \<in> set (trace_jobs (initial js))" for i
    using that p by (simp add: tr c at)
  with s show ?thesis
    unfolding feed_ordered_def m by blast
qed

lemma arrival_time_arrivals [simp]: "arrival_time (arrivals s) j = arrival_time s j"
  using arrivals_pulls [of s] by (auto simp: arrival_time_def)

lemma schedule_frame [simp]:
  "trace_jobs (schedule s) = trace_jobs s"
  "mira_midplanes (schedule s) = mira_midplanes s"
  "simulated_wallclock (schedule s) = simulated_wallclock s"
  "arrival_time (schedule s) j = arrival_time s j"
proof -
  have "trace_jobs (schedule s) = trace_jobs s \<and> mira_midplanes (schedule s) = mira_midplanes s
      \<and> simulated_wallclock (schedule s) = simulated_wallclock s
      \<and> arrival_time (schedule s) j = arrival_time s j"
  proof (cases "queue s")
    case Nil
    then show ?thesis by (simp add: schedule_empty)
  next
    case (Cons x rest)
    from schedule_eq [OF this] show ?thesis by (simp add: arrival_time_def)
  qed
  then show "trace_jobs (schedule s) = trace_jobs s"
    "mira_midplanes (schedule s) = mira_midplanes s"
    "simulated_wallclock (schedule s) = simulated_wallclock s"
    "arrival_time (schedule s) j = arrival_time s j"
    by simp_all
qed

lemma arrival_time_same_frame:
  "same_frame s s' \<Longrightarrow> arrival_time s' j = arrival_time s j"
  by (simp add: same_frame_def arrival_time_def)

lemma arrivals_ordered:
  assumes "feed_ordered s"
  shows "trace_jobs (arrivals s) =
           filter (\<lambda>j. arrival_time s j \<noteq> simulated_wallclock s) (trace_jobs s)
         \<and> queue (arrivals s) =
           queue s @ rev (filter (\<lambda>j. arrival_time s j = simulated_wallclock s) (trace_jobs s))
         \<and> sorted (rev (map (arrival_time s) (trace_jobs (arrivals s))))
         \<and> (\<forall>j\<in>set (trace_jobs (arrivals s)). simulated_wallclock s < arrival_time s j)"
proof -
  let ?c = "simulated_wallclock s"
  let ?T = "trace_jobs (arrivals s)"
  from arrivals_pulls [of s] obtain due where
    t: "trace_jobs s = ?T @ due" and
    q: "queue (arrivals s) = queue s @ rev due" and
    d: "\<forall>j\<in>set due. arrival_time s j = ?c" and
    l: "?T = [] \<or> arrival_time s (last ?T) \<noteq> ?c"
    by blast
  from assms have srt: "sorted (rev (map (arrival_time s) ?T))"
    and ge: "\<forall>j\<in>set ?T. ?c \<le> arrival_time s j"
    by (simp_all add: feed_ordered_def t sorted_append)
  have late: "?c < arrival_time s x" if x: "x \<in> set ?T" for x
  proof -
    from x have ne: "?T \<noteq> []" by auto
    with l ge have "?c < arrival_time s (last ?T)" by (simp add: order_less_le)
    with sorted_rev_last_le [OF srt ne x] show ?thesis by simp
  qed
  have "arrival_time s x \<noteq> ?c" if "x \<in> set ?T" for x
    using late [OF that] by simp
  then have "filter (\<lambda>j. arrival_time s j \<noteq> ?c) ?T = ?T"
    "filter (\<lambda>j. arrival_time s j = ?c) ?T = []"
    by (simp_all add: filter_id_conv filter_empty_conv)
  moreover have "filter (\<lambda>j. arrival_time s j \<noteq> ?c) due = []"
    "filter (\<lambda>j. arrival_time s j = ?c) due = due"
    using d by (auto simp: filter_id_conv filter_empty_conv)
  ultimately show ?thesis using q srt late by (simp add: t)
qed

lemma feed_ordered_iteration:
  assumes "feed_ordered s" and "iteration s = Inr s'"
  shows "feed_ordered s' \<and> simulated_wallclock s' = simulated_wallclock s + 1"
proof -
  let ?s2 = "schedule (arrivals s)"
  from assms(2) obtain s3 where
    s3: "jobs_tick (simulated_wallclock ?s2) ?s2 = Inr s3" and s': "s' = inc_wallclock s3"
    by (auto simp: iteration_def Let_def split: sum.splits)
  from jobs_tick_frame [OF s3] have f: "same_frame ?s2 s3" by simp
  then have tr: "trace_jobs s3 = trace_jobs (arrivals s)"
    and c: "simulated_wallclock s3 = simulated_wallclock s"
    by (simp_all add: same_frame_def)
  have at: "arrival_time s3 j = arrival_time s j" for j
    using arrival_time_same_frame [OF f, of j] by simp
  from arrivals_ordered [OF assms(1)] have
    srt: "sorted (rev (map (arrival_time s) (trace_jobs (arrivals s))))" and
    late: "\<forall>j\<in>set (trace_jobs (arrivals s)). simulated_wallclock s < arrival_time s j"
    by blast+
  have "simulated_wallclock s + 1 \<le> arrival_time s j" if "j \<in> set (trace_jobs s3)" for j
    using that late by (auto simp: tr)
  with srt have
    "sorted (rev (map (arrival_time s) (trace_jobs s3)))"
    "\<forall>j\<in>set (trace_jobs s3). simulated_wallclock s + 1 \<le> arrival_time s j"
    by (simp_all add: tr)
  moreover have "arrival_time s' = arrival_time s"
    using at by (simp add: s' fun_eq_iff arrival_time_def inc_wallclock_def)
  ultimately show ?thesis
    by (simp add: feed_ordered_def s' inc_wallclock_def c)
qed

lemma feed_ordered_simulation:
  assumes "feed_ordered s0" and "simulation n s0 = Still_Looping s"
  shows "feed_ordered s \<and> simulated_wallclock s = simulated_wallclock s0 + int n"
  using assms
proof (induction n arbitrary: s0)
  case 0
  then show ?case by (simp add: simulation.simps split: if_splits)
next
  case (Suc n)
  from Suc.prems(2) obtain s1 where
    s1: "iteration s0 = Inr s1" and r: "simulation n s1 = Still_Looping s"
    by (subst (asm) simulation.simps) (auto split: if_splits sum.splits)
  from feed_ordered_iteration [OF Suc.prems(1) s1] Suc.IH [OF _ r] show ?case by simp
qed

subsection \<open>Rounds in which no running job ends\<close>

lemma started_keeps: "started_at t b \<Longrightarrow> keeps_running t b"
  by (simp add: started_at_def keeps_running_def)

lemma body_keeps:
  assumes "keeps_running t (jobs s j)"
  shows "\<exists>s'. jobs_tick_body j t s = Inr s' \<and> running_jobs s' = running_jobs s
           \<and> mps s' = mps s \<and> (\<forall>x. x \<noteq> j \<longrightarrow> jobs s' x = jobs s x)
           \<and> (if status (jobs s j) = READY then started_at t (jobs s' j)
                else jobs s' j = jobs s j)"
proof (cases "status (jobs s j)")
  case READY
  with assms have d: "0 < duration (jobs s j)" by (simp add: keeps_running_def)
  with READY show ?thesis
    by (simp add: jobs_tick_body_def Job_tick_READY Job_is_ended_def started_at_def)
next
  case RUNNING
  with assms obtain e where "end_time (jobs s j) = Some e" "t < e"
    by (auto simp: keeps_running_def split: option.splits)
  with RUNNING show ?thesis
    by (simp add: jobs_tick_body_def Job_tick_RUNNING Job_is_ended_def)
next
  case ENDED
  with assms show ?thesis by (simp add: keeps_running_def)
next
  case CREATED
  then show ?thesis by (simp add: jobs_tick_body_def Job_tick_other Job_is_ended_def)
next
  case QUEUED
  then show ?thesis by (simp add: jobs_tick_body_def Job_tick_other Job_is_ended_def)
qed

lemma loop_keeps:
  assumes "\<forall>j\<in>set (running_jobs s). keeps_running t (jobs s j)"
  shows "\<exists>s'. jobs_tick_loop i t s = Inr s' \<and> running_jobs s' = running_jobs s
           \<and> mps s' = mps s
           \<and> (\<forall>x. started_at t (jobs s x) \<longrightarrow> started_at t (jobs s' x))
           \<and> (\<forall>k. i \<le> k \<and> k < length (running_jobs s)
                   \<and> status (jobs s (running_jobs s ! k)) = READY
                 \<longrightarrow> started_at t (jobs s' (running_jobs s ! k)))"
  using assms
proof (induction i t s rule: jobs_tick_loop.induct)
  case (1 i t s)
  show ?case
  proof (cases "i < length (running_jobs s)")
    case False
    then show ?thesis by (auto simp: jobs_tick_loop.simps)
  next
    case True
    let ?j = "running_jobs s ! i"
    from True have jr: "?j \<in> set (running_jobs s)" by simp
    with "1.prems" have kj: "keeps_running t (jobs s ?j)" by simp
    from body_keeps [OF kj] obtain s1 where
      b: "jobs_tick_body ?j t s = Inr s1" and r1: "running_jobs s1 = running_jobs s"
      and m1: "mps s1 = mps s" and o1: "\<forall>x. x \<noteq> ?j \<longrightarrow> jobs s1 x = jobs s x"
      and j1: "if status (jobs s ?j) = READY then started_at t (jobs s1 ?j)
                else jobs s1 ?j = jobs s ?j"
      by blast
    have keep1: "\<forall>x\<in>set (running_jobs s1). keeps_running t (jobs s1 x)"
    proof
      fix x assume "x \<in> set (running_jobs s1)"
      with r1 "1.prems" have "keeps_running t (jobs s x)" by simp
      with o1 j1 kj show "keeps_running t (jobs s1 x)"
        by (cases "x = ?j") (auto intro: started_keeps split: if_splits)
    qed
    from "1.IH" [OF True b keep1] obtain s' where
      l: "jobs_tick_loop (Suc i) t s1 = Inr s'" and r': "running_jobs s' = running_jobs s1"
      and m': "mps s' = mps s1"
      and st': "\<forall>x. started_at t (jobs s1 x) \<longrightarrow> started_at t (jobs s' x)"
      and rd': "\<forall>k. Suc i \<le> k \<and> k < length (running_jobs s1)
                   \<and> status (jobs s1 (running_jobs s1 ! k)) = READY
                 \<longrightarrow> started_at t (jobs s' (running_jobs s1 ! k))"
      by blast
    have pres: "started_at t (jobs s1 x)" if "started_at t (jobs s x)" for x
    proof (cases "x = ?j")
      case True
      with that j1 show ?thesis by (auto simp: started_at_def split: if_splits)
    next
      case False
      with that o1 show ?thesis by simp
    qed
    have fresh: "started_at t (jobs s' (running_jobs s ! k))"
      if k: "i \<le> k" "k < length (running_jobs s)" "status (jobs s (running_jobs s ! k)) = READY"
      for k
    proof (cases "running_jobs s ! k = ?j")
      case True
      with k(3) j1 have "started_at t (jobs s1 ?j)" by simp
      with st' True show ?thesis by simp
    next
      case False
      with o1 k(3) have rdy: "status (jobs s1 (running_jobs s1 ! k)) = READY" by (simp add: r1)
      from False k(1) have "Suc i \<le> k" by (cases "k = i") auto
      with rd' k(2) rdy show ?thesis by (simp add: r1)
    qed
    from True b l have "jobs_tick_loop i t s = Inr s'"
      by (subst jobs_tick_loop.simps) simp
    with r' r1 m' m1 st' pres fresh show ?thesis by auto
  qed
qed

subsection \<open>Every running job ends\<close>

text \<open>The tick loop over a list without repetitions: the list never grows; a job's record
  is either untouched or the result of one tick; when nothing was removed every job from
  the starting position on was ticked; a job still listed has not ended, a job no longer
  listed has. So in each round a running job ends, or some other job leaves the list, or
  the job is ticked: \<open>rounds_left\<close> decreases.\<close>

lemma Job_tick_job:
  assumes "Job_tick j t s = Inr s1"
  shows "jobs s1 j = tick_job t (jobs s j)"
  using assms
  by (auto simp: Job_tick_def tick_job_def Let_def split: if_splits option.splits)

lemma body_step:
  assumes "jobs_tick_body j t s = Inr s1"
  shows "jobs s1 j = tick_job t (jobs s j) \<and> (\<forall>x. x \<noteq> j \<longrightarrow> jobs s1 x = jobs s x)
         \<and> (running_jobs s1 = running_jobs s \<and> status (jobs s1 j) \<noteq> ENDED
              \<or> running_jobs s1 = remove1 j (running_jobs s) \<and> status (jobs s1 j) = ENDED
                  \<and> j \<in> set (running_jobs s))"
proof -
  from assms obtain s0 where t: "Job_tick j t s = Inr s0"
    by (auto simp: jobs_tick_body_def split: sum.splits)
  from jobs_tick_body_jobs [OF assms t] Job_tick_job [OF t]
  have a: "jobs s1 j = tick_job t (jobs s j)" by simp
  from jobs_tick_body_Inr [OF assms] have
    b: "\<forall>x. x \<noteq> j \<longrightarrow> jobs s1 x = jobs s x" and
    c: "running_jobs s1 = running_jobs s \<and> status (jobs s1 j) \<noteq> ENDED
              \<or> running_jobs s1 = remove1 j (running_jobs s) \<and> status (jobs s1 j) = ENDED"
    by simp_all
  have "j \<in> set (running_jobs s)" if "status (jobs s1 j) = ENDED"
  proof -
    from that jobs_tick_body_jobs [OF assms t] have e: "Job_is_ended j s0"
      by (simp add: Job_is_ended_def)
    with assms t obtain s2 where
      f: "free_all (midplanes (jobs s0 j)) (logging INFO (Mira_Clean_Up (name (jobs s0 j))) s0) = Inr s2"
      and m: "j \<in> set (running_jobs s2)"
      by (auto simp: jobs_tick_body_def split: sum.splits if_splits)
    from free_all_Inr [OF f] Job_tick_Inr [OF t] m show ?thesis by simp
  qed
  with a b c show ?thesis by blast
qed

lemma distinct_nth_notin_drop:
  assumes "distinct xs" and "i < length xs"
  shows "xs ! i \<notin> set (drop (Suc i) xs)"
proof -
  from assms(2) have "xs = take i xs @ xs ! i # drop (Suc i) xs" by (rule id_take_nth_drop)
  with assms(1) have "distinct (take i xs @ xs ! i # drop (Suc i) xs)" by simp
  then show ?thesis by simp
qed

lemma remove1_nth_distinct:
  assumes "distinct xs" and "i < length xs"
  shows "remove1 (xs ! i) xs = take i xs @ drop (Suc i) xs"
proof -
  from assms(2) have xs: "xs = take i xs @ xs ! i # drop (Suc i) xs" by (rule id_take_nth_drop)
  with assms(1) have d: "distinct (take i xs @ xs ! i # drop (Suc i) xs)" by simp
  then have "xs ! i \<notin> set (take i xs)" by simp
  then have "remove1 (xs ! i) (take i xs @ xs ! i # drop (Suc i) xs) = take i xs @ drop (Suc i) xs"
    by (simp add: remove1_append)
  with xs show ?thesis by simp
qed

lemma loop_progress:
  assumes "jobs_tick_loop i t s = Inr s'" and "distinct (running_jobs s)"
  shows "length (running_jobs s') \<le> length (running_jobs s)
       \<and> set (running_jobs s') \<subseteq> set (running_jobs s)
       \<and> (\<forall>x. jobs s' x = jobs s x
               \<or> x \<in> set (drop i (running_jobs s)) \<and> jobs s' x = tick_job t (jobs s x))
       \<and> (length (running_jobs s') = length (running_jobs s)
            \<longrightarrow> (\<forall>x\<in>set (drop i (running_jobs s)). jobs s' x = tick_job t (jobs s x)))
       \<and> (\<forall>x\<in>set (running_jobs s'). status (jobs s x) \<noteq> ENDED
               \<longrightarrow> status (jobs s' x) \<noteq> ENDED)
       \<and> (\<forall>x\<in>set (running_jobs s). x \<notin> set (running_jobs s')
               \<longrightarrow> status (jobs s' x) = ENDED)"
  using assms
proof (induction i t s rule: jobs_tick_loop.induct)
  case (1 i t s)
  let ?rs = "running_jobs s"
  show ?case
  proof (cases "i < length ?rs")
    case False
    with "1.prems"(1) have "s' = s" by (simp add: jobs_tick_loop.simps)
    with False show ?thesis by simp
  next
    case True
    let ?j = "?rs ! i"
    from True "1.prems"(1) obtain s1 where
      b: "jobs_tick_body ?j t s = Inr s1" and l: "jobs_tick_loop (Suc i) t s1 = Inr s'"
      by (subst (asm) jobs_tick_loop.simps) (auto split: sum.splits)
    note d = "1.prems"(2)
    from body_step [OF b] have
      J: "jobs s1 ?j = tick_job t (jobs s ?j)" and
      O: "\<forall>x. x \<noteq> ?j \<longrightarrow> jobs s1 x = jobs s x" and
      C: "running_jobs s1 = ?rs \<and> status (jobs s1 ?j) \<noteq> ENDED
          \<or> running_jobs s1 = remove1 ?j ?rs \<and> status (jobs s1 ?j) = ENDED \<and> ?j \<in> set ?rs"
      by blast+
    let ?r1 = "running_jobs s1"
    from C d have d1: "distinct ?r1" by auto
    from C have len1: "length ?r1 \<le> length ?rs" by (auto simp: length_remove1)
    from C have sub1: "set ?r1 \<subseteq> set ?rs"
      using set_remove1_subset [of ?j ?rs] by auto
    have nj: "?j \<notin> set (drop (Suc i) ?rs)"
      using d True by (rule distinct_nth_notin_drop)
    have di: "drop i ?rs = ?j # drop (Suc i) ?rs"
      using True by (simp add: Cons_nth_drop_Suc)
    have dr: "set (drop (Suc i) ?r1) \<subseteq> set (drop (Suc i) ?rs)"
    proof (cases "?r1 = ?rs")
      case True
      then show ?thesis by simp
    next
      case False
      with C have "?r1 = remove1 ?j ?rs" by auto
      with remove1_nth_distinct [OF d True] have r: "?r1 = take i ?rs @ drop (Suc i) ?rs" by simp
      have "drop (Suc i) ?r1 = drop (Suc 0) (drop (Suc i) ?rs)"
        using True by (simp add: r min_def)
      then show ?thesis using set_drop_subset [of "Suc 0" "drop (Suc i) ?rs"] by simp
    qed
    have removed: "?j \<notin> set ?r1 \<and> length ?r1 < length ?rs" if "?r1 \<noteq> ?rs"
    proof -
      from that C have r: "?r1 = remove1 ?j ?rs" and m: "?j \<in> set ?rs" by auto
      from r d have "?j \<notin> set ?r1" by simp
      moreover from r m True have "length ?r1 < length ?rs" by (simp add: length_remove1)
      ultimately show ?thesis by simp
    qed
    have kept: "status (jobs s1 ?j) \<noteq> ENDED" if "?r1 = ?rs"
    proof
      assume e: "status (jobs s1 ?j) = ENDED"
      with C have r: "?r1 = remove1 ?j ?rs" and m: "?j \<in> set ?rs" by auto
      from m have "length (remove1 ?j ?rs) = length ?rs - 1" by (simp add: length_remove1)
      with r that have "length ?rs = length ?rs - 1" by simp
      with True show False by simp
    qed
    have rest: "set ?rs \<subseteq> insert ?j (set ?r1)"
      using C d by auto
    from "1.IH" [OF True b l d1] have
      A1: "length (running_jobs s') \<le> length ?r1" and
      A2: "set (running_jobs s') \<subseteq> set ?r1" and
      A3: "\<forall>x. jobs s' x = jobs s1 x
               \<or> x \<in> set (drop (Suc i) ?r1) \<and> jobs s' x = tick_job t (jobs s1 x)" and
      A4: "length (running_jobs s') = length ?r1
            \<longrightarrow> (\<forall>x\<in>set (drop (Suc i) ?r1). jobs s' x = tick_job t (jobs s1 x))" and
      A5: "\<forall>x\<in>set (running_jobs s'). status (jobs s1 x) \<noteq> ENDED
               \<longrightarrow> status (jobs s' x) \<noteq> ENDED" and
      A6: "\<forall>x\<in>set ?r1. x \<notin> set (running_jobs s') \<longrightarrow> status (jobs s' x) = ENDED"
      by blast+
    have same_j: "jobs s' ?j = jobs s1 ?j"
      using A3 dr nj by blast
    have G1: "length (running_jobs s') \<le> length ?rs" using A1 len1 by simp
    have G2: "set (running_jobs s') \<subseteq> set ?rs" using A2 sub1 by blast
    have G3: "jobs s' x = jobs s x
               \<or> x \<in> set (drop i ?rs) \<and> jobs s' x = tick_job t (jobs s x)" for x
    proof (cases "x = ?j")
      case True
      with same_j J di show ?thesis by simp
    next
      case False
      with O have "jobs s1 x = jobs s x" by simp
      with A3 dr di show ?thesis by (metis insert_iff list.simps(15) subsetD)
    qed
    have G4: "jobs s' x = tick_job t (jobs s x)"
      if e: "length (running_jobs s') = length ?rs" and x: "x \<in> set (drop i ?rs)" for x
    proof -
      from e A1 len1 have e1: "length (running_jobs s') = length ?r1" and "length ?r1 = length ?rs"
        by simp_all
      with removed have r1: "?r1 = ?rs" by fastforce
      show ?thesis
      proof (cases "x = ?j")
        case True
        with same_j J show ?thesis by simp
      next
        case False
        with x di have "x \<in> set (drop (Suc i) ?r1)" by (simp add: r1)
        with A4 e1 have "jobs s' x = tick_job t (jobs s1 x)" by blast
        with False O show ?thesis by simp
      qed
    qed
    have G5: "status (jobs s' x) \<noteq> ENDED"
      if x: "x \<in> set (running_jobs s')" and n: "status (jobs s x) \<noteq> ENDED" for x
    proof -
      from x A2 have x1: "x \<in> set ?r1" by blast
      have "status (jobs s1 x) \<noteq> ENDED"
      proof (cases "x = ?j")
        case True
        with x1 removed have "?r1 = ?rs" by blast
        with kept True show ?thesis by simp
      next
        case False
        with O n show ?thesis by simp
      qed
      with A5 x show ?thesis by blast
    qed
    have G6: "status (jobs s' x) = ENDED"
      if x: "x \<in> set ?rs" and n: "x \<notin> set (running_jobs s')" for x
    proof (cases "x \<in> set ?r1")
      case True
      with A6 n show ?thesis by blast
    next
      case False
      with x rest have xj: "x = ?j" by blast
      with False x have "?r1 \<noteq> ?rs" by auto
      with C have "status (jobs s1 ?j) = ENDED" by auto
      with same_j xj show ?thesis by simp
    qed
    from G1 G2 G3 G4 G5 G6 show ?thesis by blast
  qed
qed

lemma remaining_later: "remaining (t + 1) b \<le> remaining t b"
  by (auto simp: remaining_def nat_mono split: JobStatus.splits option.splits)

lemma remaining_ticked:
  assumes "status b = READY \<or> status b = RUNNING \<and> end_time b \<noteq> None"
    and "status (tick_job t b) \<noteq> ENDED"
  shows "remaining (t + 1) (tick_job t b) < remaining t b"
  using assms
  by (auto simp: remaining_def tick_job_def Let_def split: if_splits option.splits)

lemma wf_jobs_tick_plain:
  assumes "wf_world s"
  shows "\<exists>s'. jobs_tick t s = Inr s' \<and> wf_world s'"
proof -
  have "\<exists>s'. jobs_tick_loop 0 t s = Inr s' \<and> wf_world s'"
    by (rule jobs_tick_loop_total [where I = wf_world]) (simp_all add: assms wf_body)
  then show ?thesis by (simp add: jobs_tick_def)
qed

lemma tick_round:
  assumes wf: "wf_world s" and j: "j \<in> set (running_jobs s)"
  shows "\<exists>s'. jobs_tick t s = Inr s' \<and> wf_world s' \<and> same_frame s s'
           \<and> (status (jobs s' j) = ENDED \<and> j \<notin> set (running_jobs s')
                \<or> j \<in> set (running_jobs s')
                   \<and> length (running_jobs s') + remaining (t + 1) (jobs s' j)
                       < length (running_jobs s) + remaining t (jobs s j))"
proof -
  from wf_jobs_tick_plain [OF wf, of t] obtain s' where
    jt: "jobs_tick t s = Inr s'" and wf': "wf_world s'" by blast
  from jobs_tick_frame [OF jt] have fr: "same_frame s s'" by simp
  from jt have l: "jobs_tick_loop 0 t s = Inr s'" by (simp add: jobs_tick_def)
  from wf have d: "distinct (running_jobs s)" by (simp add: wf_world_def)
  from wf j have st: "status (jobs s j) = READY
      \<or> status (jobs s j) = RUNNING \<and> end_time (jobs s j) \<noteq> None"
    by (simp add: wf_world_def holds_midplanes_def)
  from loop_progress [OF l d] have
    G1: "length (running_jobs s') \<le> length (running_jobs s)" and
    G3: "jobs s' j = jobs s j \<or> jobs s' j = tick_job t (jobs s j)" and
    G4: "length (running_jobs s') = length (running_jobs s)
            \<longrightarrow> jobs s' j = tick_job t (jobs s j)" and
    G5: "j \<in> set (running_jobs s') \<longrightarrow> status (jobs s j) \<noteq> ENDED
            \<longrightarrow> status (jobs s' j) \<noteq> ENDED" and
    G6: "j \<notin> set (running_jobs s') \<longrightarrow> status (jobs s' j) = ENDED"
    using j by auto
  have "status (jobs s' j) = ENDED \<and> j \<notin> set (running_jobs s')
        \<or> j \<in> set (running_jobs s')
           \<and> length (running_jobs s') + remaining (t + 1) (jobs s' j)
               < length (running_jobs s) + remaining t (jobs s j)"
  proof (cases "j \<in> set (running_jobs s')")
    case False
    with G6 show ?thesis by simp
  next
    case True
    with G5 st have ne: "status (jobs s' j) \<noteq> ENDED" by auto
    show ?thesis
    proof (cases "length (running_jobs s') = length (running_jobs s)")
      case same: True
      with G4 have "jobs s' j = tick_job t (jobs s j)" by simp
      with remaining_ticked [OF st, of t] ne
      have "remaining (t + 1) (jobs s' j) < remaining t (jobs s j)" by simp
      with same True show ?thesis by simp
    next
      case False
      with G1 have lt: "length (running_jobs s') < length (running_jobs s)" by simp
      have "remaining (t + 1) (jobs s' j) \<le> remaining t (jobs s j)"
      proof (cases "jobs s' j = jobs s j")
        case True
        then show ?thesis by (simp add: remaining_later)
      next
        case False
        with G3 have "jobs s' j = tick_job t (jobs s j)" by simp
        with remaining_ticked [OF st, of t] ne show ?thesis by simp
      qed
      with lt True show ?thesis by simp
    qed
  qed
  with jt wf' fr show ?thesis by blast
qed

lemma arrivals_counts:
  "length (trace_jobs (arrivals s)) + length (queue (arrivals s))
     = length (trace_jobs s) + length (queue s)
   \<and> set (trace_jobs (arrivals s)) \<subseteq> set (trace_jobs s)
   \<and> set (queue (arrivals s)) \<subseteq> set (queue s) \<union> set (trace_jobs s)
   \<and> (\<forall>j. midplanes (jobs (arrivals s) j) = midplanes (jobs s j))
   \<and> (\<forall>j. j \<notin> set (trace_jobs s) \<longrightarrow> jobs (arrivals s) j = jobs s j)"
proof -
  from arrivals_pulls [of s] obtain due where
    t: "trace_jobs s = trace_jobs (arrivals s) @ due" and
    q: "queue (arrivals s) = queue s @ rev due" and
    h: "\<forall>j. jobs (arrivals s) j =
               (if j \<in> set due then (jobs s j)\<lparr>status := QUEUED\<rparr> else jobs s j)"
    by blast
  have "length (trace_jobs s) = length (trace_jobs (arrivals s)) + length due"
    by (subst t) simp
  moreover have "set (trace_jobs (arrivals s)) \<subseteq> set (trace_jobs s)"
    "set due \<subseteq> set (trace_jobs s)"
    by (subst t, simp)+
  ultimately show ?thesis using q h by auto
qed

lemma schedule_counts:
  "length (queue (schedule s)) + length (running_jobs (schedule s))
     = length (queue s) + length (running_jobs s)
   \<and> set (queue (schedule s)) \<subseteq> set (queue s)
   \<and> set (running_jobs s) \<subseteq> set (running_jobs (schedule s))
   \<and> (\<forall>j. j \<notin> set (queue s) \<longrightarrow> jobs (schedule s) j = jobs s j)"
proof (cases "queue s")
  case Nil
  then show ?thesis by (simp add: schedule_empty)
next
  case (Cons x rest)
  from schedule_eq [OF this] Cons show ?thesis by auto
qed

lemma left_behind_iteration:
  assumes "left_behind s j" and "iteration s = Inr s'"
  shows "left_behind s' j"
proof -
  let ?a = "arrivals s"
  let ?s2 = "schedule ?a"
  from assms(2) obtain s3 where
    s3: "jobs_tick (simulated_wallclock ?s2) ?s2 = Inr s3" and s': "s' = inc_wallclock s3"
    by (auto simp: iteration_def Let_def split: sum.splits)
  from assms(1) arrivals_counts [of s] have a: "left_behind ?a j"
    by (auto simp: left_behind_def)
  with schedule_counts [of ?a] have "left_behind ?s2 j"
    by (auto simp: left_behind_def)
  with jobs_tick_frame [OF s3] show ?thesis
    by (simp add: left_behind_def same_frame_def s' inc_wallclock_def)
qed

lemma wf_iteration_plain:
  assumes "wf_world s"
  shows "\<exists>s'. iteration s = Inr s' \<and> wf_world s'"
proof -
  let ?s2 = "schedule (arrivals s)"
  have "wf_world ?s2" using assms by (simp add: wf_arrivals wf_schedule)
  from wf_jobs_tick_plain [OF this, of "simulated_wallclock ?s2"] obtain s3 where
    s3: "jobs_tick (simulated_wallclock ?s2) ?s2 = Inr s3" and "wf_world s3" by blast
  then have "wf_world (inc_wallclock s3)"
    by (simp add: inc_wallclock_def wf_world_def holds_midplanes_def)
  with s3 show ?thesis by (simp add: iteration_def Let_def)
qed

lemma left_behind_simulation:
  assumes "wf_world s" and "left_behind s j"
  shows "left_behind (state_of (simulation k s)) j"
  using assms
proof (induction k arbitrary: s)
  case 0
  then show ?case by (simp add: simulation.simps state_of_def)
next
  case (Suc k)
  show ?case
  proof (cases "loop_condition s")
    case False
    with Suc.prems show ?thesis by (simp add: simulation.simps state_of_def)
  next
    case True
    from wf_iteration_plain [OF Suc.prems(1)] obtain s1 where
      it: "iteration s = Inr s1" and wf1: "wf_world s1" by blast
    from left_behind_iteration [OF Suc.prems(2) it] have "left_behind s1 j" .
    from Suc.IH [OF wf1 this] True it show ?thesis
      by (subst simulation.simps) simp
  qed
qed

lemma round_progress:
  assumes wf: "wf_world s" and j: "j \<in> set (running_jobs s)"
  shows "\<exists>s'. iteration s = Inr s' \<and> wf_world s'
           \<and> (status (jobs s' j) = ENDED \<and> j \<notin> set (running_jobs s')
                \<or> j \<in> set (running_jobs s') \<and> rounds_left s' j < rounds_left s j)"
proof -
  let ?a = "arrivals s"
  let ?s2 = "schedule ?a"
  let ?t = "simulated_wallclock s"
  from wf j have nt: "j \<notin> set (trace_jobs s)" and nq: "j \<notin> set (queue s)"
    by (auto simp: wf_world_def)
  from arrivals_counts [of s] nt nq have
    ca: "length (trace_jobs ?a) + length (queue ?a) = length (trace_jobs s) + length (queue s)"
    and ja: "jobs ?a j = jobs s j" and nqa: "j \<notin> set (queue ?a)"
    by auto
  from schedule_counts [of ?a] nqa j have
    c2: "length (queue ?s2) + length (running_jobs ?s2)
          = length (queue ?a) + length (running_jobs s)"
    and j2: "jobs ?s2 j = jobs s j" and r2: "j \<in> set (running_jobs ?s2)"
    by (auto simp: ja)
  have wf2: "wf_world ?s2" using wf by (simp add: wf_arrivals wf_schedule)
  from tick_round [OF wf2 r2, of ?t] obtain s3 where
    jt: "jobs_tick ?t ?s2 = Inr s3" and wf3: "wf_world s3" and fr: "same_frame ?s2 s3"
    and pr: "status (jobs s3 j) = ENDED \<and> j \<notin> set (running_jobs s3)
                \<or> j \<in> set (running_jobs s3)
                   \<and> length (running_jobs s3) + remaining (?t + 1) (jobs s3 j)
                       < length (running_jobs ?s2) + remaining ?t (jobs ?s2 j)"
    by blast
  let ?s' = "inc_wallclock s3"
  from jt have it: "iteration s = Inr ?s'" by (simp add: iteration_def Let_def)
  from wf3 have wf': "wf_world ?s'"
    by (simp add: inc_wallclock_def wf_world_def holds_midplanes_def)
  from fr have f: "trace_jobs s3 = trace_jobs ?a" "queue s3 = queue ?s2"
    "simulated_wallclock s3 = ?t"
    by (simp_all add: same_frame_def)
  have "status (jobs ?s' j) = ENDED \<and> j \<notin> set (running_jobs ?s')
        \<or> j \<in> set (running_jobs ?s') \<and> rounds_left ?s' j < rounds_left s j"
  proof (cases "j \<in> set (running_jobs s3)")
    case False
    with pr show ?thesis by (simp add: inc_wallclock_def)
  next
    case True
    with pr have "length (running_jobs s3) + remaining (?t + 1) (jobs s3 j)
                       < length (running_jobs ?s2) + remaining ?t (jobs s j)"
      by (auto simp: j2)
    with ca c2 f have "rounds_left ?s' j < rounds_left s j"
      by (simp add: rounds_left_def inc_wallclock_def)
    with True show ?thesis by (simp add: inc_wallclock_def)
  qed
  with it wf' show ?thesis by blast
qed

lemma running_job_ends:
  assumes "wf_world s" and "j \<in> set (running_jobs s)"
  shows "\<exists>m s'. (simulation m s = Still_Looping s' \<or> simulation m s = Finished s')
           \<and> status (jobs s' j) = ENDED \<and> j \<notin> set (running_jobs s')"
  using assms
proof (induction "rounds_left s j" arbitrary: s rule: less_induct)
  case less
  from less.prems(2) have c: "loop_condition s" by (auto simp: loop_condition_def)
  from round_progress [OF less.prems] obtain s1 where
    it: "iteration s = Inr s1" and wf1: "wf_world s1" and
    pr: "status (jobs s1 j) = ENDED \<and> j \<notin> set (running_jobs s1)
                \<or> j \<in> set (running_jobs s1) \<and> rounds_left s1 j < rounds_left s j"
    by blast
  have step: "simulation (Suc m) s = simulation m s1" for m
    using c it by (subst simulation.simps) simp
  show ?case
  proof (cases "j \<in> set (running_jobs s1)")
    case False
    with pr have e: "status (jobs s1 j) = ENDED" "j \<notin> set (running_jobs s1)" by auto
    have "simulation 0 s1 = Still_Looping s1 \<or> simulation 0 s1 = Finished s1"
      by (simp add: simulation.simps)
    with e step [of 0] show ?thesis by metis
  next
    case True
    with pr have "rounds_left s1 j < rounds_left s j" by simp
    from less.hyps [OF this wf1 True] obtain m s' where
      "simulation m s1 = Still_Looping s' \<or> simulation m s1 = Finished s'"
      "status (jobs s' j) = ENDED" "j \<notin> set (running_jobs s')"
      by blast
    with step [of m] show ?thesis by metis
  qed
qed

lemma wf_reachable:
  assumes "wf_world s" and "simulation n s = Still_Looping s'"
  shows "wf_world s'"
  using assms
proof (induction n arbitrary: s)
  case 0
  then show ?case by (simp add: simulation.simps split: if_splits)
next
  case (Suc n)
  from wf_iteration_plain [OF Suc.prems(1)] obtain s1 where
    it: "iteration s = Inr s1" and wf1: "wf_world s1" by blast
  from Suc.prems(2) it have "simulation n s1 = Still_Looping s'"
    by (subst (asm) simulation.simps) (simp split: if_splits)
  from Suc.IH [OF wf1 this] show ?case .
qed

section \<open>The properties of the specification\<close>

subsection \<open>Releasing a vacant midplane\<close>

text \<open>
  C2. Claimed: \<open>free_up\<close> on a midplane that is already VACANT logs a warning, does not
  abort and changes nothing else. In the code the warning is logged, and then the
  closing log line reads the name of the owning job; a vacant midplane has no owner, so
  the call dies with AttributeError. The theorem states what the code does on every
  vacant midplane without owner.
\<close>

theorem free_up_vacant_raises:
  assumes "MidPlane_is_vacant m s" and "mp_job (mps s m) = None"
  shows "\<exists>s'. MidPlane_free_up m s = Inl (AttributeError, s')
            \<and> log s' = log s @ [Logged WARNING (Midplane_Free_Again (mp_name (mps s m)))]"
  using assms by (simp add: MidPlane_free_up_def Let_def)

theorem free_up_vacant_raises_witness:
  "\<exists>s'. MidPlane_free_up 0 (initial []) = Inl (AttributeError, s')
            \<and> log s' = [Logged WARNING (Midplane_Free_Again (str 0))]"
  using free_up_vacant_raises [of 0 "initial []"]
  by (simp add: world_defs MidPlane_is_vacant_def)

subsection \<open>Assigning a midplane\<close>

text \<open>
  C9, as amended. \<open>assign_job\<close> marks the midplane OCCUPIED and records the job on the
  midplane and on every one of its nodes, whatever the midplane held before: it has no
  test of the current status, and on an OCCUPIED midplane it replaces the owner and
  returns normally.
\<close>

theorem assign_job_unconditional:
  "mps (MidPlane_assign_job m j s) =
     (mps s)(m := (mps s m)\<lparr>nodes := replicate (length (nodes (mps s m))) (Some j),
                             mp_status := OCCUPIED, mp_job := Some j\<rparr>)
   \<and> jobs (MidPlane_assign_job m j s) = jobs s
   \<and> log (MidPlane_assign_job m j s) =
       log s @ [Logged INFO (Midplane_Assigned (mp_name (mps s m)) (name (jobs s j)))]"
  by (simp add: MidPlane_assign_job_def Let_def map_replicate_const)

text \<open>The claim as stated (the call fails on an OCCUPIED midplane) is false: midplane 0,
  occupied by job 0, is handed to job 1 by a second call.\<close>

theorem assign_job_occupied_counterexample:
  "mp_status (mps (MidPlane_assign_job 0 0 (initial [])) 0) = OCCUPIED
   \<and> mp_job (mps (MidPlane_assign_job 0 0 (initial [])) 0) = Some 0
   \<and> mp_status (mps (MidPlane_assign_job 0 1 (MidPlane_assign_job 0 0 (initial []))) 0) = OCCUPIED
   \<and> mp_job (mps (MidPlane_assign_job 0 1 (MidPlane_assign_job 0 0 (initial []))) 0) = Some 1
   \<and> nodes (mps (MidPlane_assign_job 0 1 (MidPlane_assign_job 0 0 (initial []))) 0)
       = replicate 512 (Some 1)"
  by (simp add: world_defs)

subsection \<open>The scheduler\<close>

text \<open>
  C5. For the job at the head of the queue, asking for \<open>n\<close> nodes, the scheduler
  requires \<open>k = n div 512\<close> midplanes, the floor of the quotient (\<open>512 k \<le> n < 512 k + 512\<close>,
  so never rounded up): it admits the job exactly when \<open>k\<close> is not negative and at most
  the number of vacant midplanes, on the first \<open>k\<close> vacant midplanes, and the admitted job
  holds \<open>k\<close> midplanes.
\<close>

theorem schedule_floor_division:
  assumes "queue s = next_job # rest"
  shows "let n = num_of_requested_nodes (jobs s next_job); k = n div 512
         in 512 * k \<le> n \<and> n < 512 * k + 512
            \<and> schedule s =
                (if 0 \<le> k \<and> k \<le> int (length (all_vacant s))
                 then admit next_job rest (take (nat k) (all_vacant s)) s else s)
            \<and> (0 \<le> k \<and> k \<le> int (length (all_vacant s))
                 \<longrightarrow> int (length (midplanes (jobs (schedule s) next_job))) = k)"
proof -
  let ?n = "num_of_requested_nodes (jobs s next_job)"
  have "512 * (?n div 512) \<le> ?n" "?n < 512 * (?n div 512) + 512"
    by presburger+
  then show ?thesis
    using schedule_eq [OF assms] by (auto simp: Let_def)
qed

text \<open>A request of 513 nodes gets one midplane, a request of 511 nodes none.\<close>

theorem schedule_floor_division_witness:
  "queue (queued_alone 513) = [0]
   \<and> midplanes (jobs (schedule (queued_alone 513)) 0) = [0]
   \<and> midplanes (jobs (schedule (queued_alone 511)) 0) = []"
  using schedule_floor_division [of "queued_alone 513" 0 "[]"]
        schedule_floor_division [of "queued_alone 511" 0 "[]"]
  by (simp add: world_defs all_vacant_def MidPlane_is_vacant_def)

subsection \<open>A request that can never be met\<close>

text \<open>
  C6, as amended. The scheduler compares \<open>n div 512\<close> with the vacant midplanes, so a job
  is out of reach of the 96 midplanes only from \<open>n = 97 * 512 = 49664\<close> nodes on. For every
  trace holding such a job, and however many rounds the loop is given, the loop is still
  running after them (it has neither left the loop nor died), the job is not in the
  running set, and it is still in the trace or in the queue.
\<close>

theorem oversize_job_never_admitted:
  assumes "b < length js" and "49664 \<le> num_of_requested_nodes (js ! b)"
  shows "\<exists>s. simulation n (initial js) = Still_Looping s
           \<and> b \<notin> set (running_jobs s)
           \<and> (b \<in> set (trace_jobs s) \<or> b \<in> set (queue s))"
proof -
  from assms(2) have "96 < num_of_requested_nodes (js ! b) div 512" by linarith
  with assms(1) have "never_fits (initial js) b"
    by (simp add: never_fits_def initial_def Mira_init_def)
  from never_fits_forever [OF wf_initial this, of n] obtain s where
    s: "simulation n (initial js) = Still_Looping s" and wf: "wf_world s" and nf: "never_fits s b"
    by blast
  from wf nf have "b \<notin> set (running_jobs s)"
    by (auto simp: wf_world_def never_fits_def)
  with s nf show ?thesis by (auto simp: never_fits_def)
qed

theorem oversize_job_never_admitted_witness:
  "\<exists>s. simulation 1000 (initial [sample_job ''A'' 3 49664]) = Still_Looping s
           \<and> 0 \<notin> set (running_jobs s)
           \<and> (0 \<in> set (trace_jobs s) \<or> 0 \<in> set (queue s))"
  using oversize_job_never_admitted [of 0 "[sample_job ''A'' 3 49664]" 1000]
  by (simp add: sample_job_def Job_init_def)

text \<open>The claim as stated puts the bound at the 49152 nodes of the machine. A single job
  asking for 49153 nodes (duration 0) is given all 96 midplanes in the first round, and the
  loop ends after that round.\<close>

theorem oversize_request_counterexample:
  "running_jobs (schedule (arrivals (initial oversize_trace))) = [0]
   \<and> simulation (Suc 0) (initial oversize_trace)
       = Finished (state_of (simulation (Suc 0) (initial oversize_trace)))"
proof -
  let ?w = "initial oversize_trace"
  let ?a = "arrivals ?w"
  let ?s2 = "schedule ?a"
  have q: "queue ?a = [0]" and tr: "trace_jobs ?a = []" and r: "running_jobs ?a = []"
    and n: "num_of_requested_nodes (jobs ?a 0) = 49153" and d: "duration (jobs ?a 0) = 0"
    and c: "simulated_wallclock ?a = 0"
    by (simp_all add: oversize_trace_def world_defs arrivals.simps get_job_def)
  have v: "length (all_vacant ?a) = 96"
    by (simp add: oversize_trace_def world_defs arrivals.simps get_job_def all_vacant_def
                  MidPlane_is_vacant_def)
  from schedule_eq [OF q] n v have
    sch: "?s2 = admit 0 [] (take 96 (all_vacant ?a)) ?a" by simp
  have wf2: "wf_world ?s2" by (simp add: wf_initial wf_arrivals wf_schedule)
  have r2: "running_jobs ?s2 = [0]" and q2: "queue ?s2 = []" and t2: "trace_jobs ?s2 = []"
    and st2: "status (jobs ?s2 0) = READY" and d2: "duration (jobs ?s2 0) = 0"
    and c2: "simulated_wallclock ?s2 = 0"
    unfolding sch using q tr r d c by simp_all
  from wf_body [OF wf2, of 0 0] r2 obtain s3 where
    b: "jobs_tick_body 0 0 ?s2 = Inr s3" by auto
  from st2 d2 have "Job_tick 0 0 ?s2 = Inr (Job_end 0 0 (Job_start 0 0 ?s2))"
    by (simp add: Job_tick_READY)
  from jobs_tick_body_jobs [OF b this] have "status (jobs s3 0) = ENDED" by simp
  with jobs_tick_body_Inr [OF b] r2 q2 t2 c2 have
    r3: "running_jobs s3 = []" and q3: "queue s3 = []" and t3: "trace_jobs s3 = []"
    by (simp_all add: same_frame_def)
  have "jobs_tick 0 ?s2 = Inr s3"
    using b r2 r3 by (simp add: jobs_tick_def jobs_tick_loop.simps [of 0] jobs_tick_loop.simps [of "Suc 0"])
  then have it: "iteration ?w = Inr (inc_wallclock s3)"
    using c2 by (simp add: iteration_def Let_def)
  have "loop_condition ?w"
    by (simp add: loop_condition_def oversize_trace_def world_defs)
  moreover have "\<not> loop_condition (inc_wallclock s3)"
    using r3 q3 t3 by (simp add: loop_condition_def inc_wallclock_def)
  ultimately have "simulation (Suc 0) ?w = Finished (inc_wallclock s3)"
    using it by (simp add: simulation.simps)
  with r2 show ?thesis by (simp add: state_of_def)
qed

subsection \<open>Head-of-line blocking\<close>

text \<open>
  C7. When the machine has fewer vacant midplanes than the job at the head of the queue
  requires, one call of the scheduler changes nothing at all: queue, midplanes (status,
  owner, nodes), running set. The loop calls the scheduler once per round, so in such a
  round no job leaves the queue, whatever stands behind the head, and the running set gains
  no job.
\<close>

theorem blocked_head_blocks_queue:
  assumes "queue s = next_job # rest"
    and "int (length (all_vacant s)) < num_of_requested_nodes (jobs s next_job) div 512"
  shows "schedule s = s
         \<and> (\<forall>s0 s'. arrivals s0 = s \<and> iteration s0 = Inr s'
               \<longrightarrow> queue s' = next_job # rest
                   \<and> set (running_jobs s') \<subseteq> set (running_jobs s0))"
proof -
  from schedule_eq [OF assms(1)] assms(2) have sch: "schedule s = s" by simp
  have "queue s' = next_job # rest \<and> set (running_jobs s') \<subseteq> set (running_jobs s0)"
    if a: "arrivals s0 = s" and it: "iteration s0 = Inr s'" for s0 s'
  proof -
    from it a sch obtain s3 where
      s3: "jobs_tick (simulated_wallclock s) s = Inr s3" and s': "s' = inc_wallclock s3"
      by (auto simp: iteration_def Let_def split: sum.splits)
    from jobs_tick_frame [OF s3] assms(1) s' a show ?thesis
      by (auto simp: same_frame_def inc_wallclock_def)
  qed
  with sch show ?thesis by blast
qed

text \<open>Job 1 asks for 49664 nodes and heads the queue; job 0 behind it asks for 512 nodes,
  which are vacant, and stays queued.\<close>

theorem blocked_head_blocks_queue_witness:
  "queue (arrivals (initial blocked_trace)) = [1, 0]
   \<and> schedule (arrivals (initial blocked_trace)) = arrivals (initial blocked_trace)
   \<and> iteration (initial blocked_trace) = Inr (world_of (iteration (initial blocked_trace)))
   \<and> queue (world_of (iteration (initial blocked_trace))) = [1, 0]
   \<and> running_jobs (world_of (iteration (initial blocked_trace))) = []"
proof -
  let ?w = "initial blocked_trace"
  have q: "queue (arrivals ?w) = [1, 0]"
    by (simp add: blocked_trace_def world_defs arrivals.simps get_job_def)
  have n: "num_of_requested_nodes (jobs (arrivals ?w) 1) = 49664"
    by (simp add: blocked_trace_def world_defs arrivals.simps get_job_def)
  have r: "running_jobs ?w = []"
    by (simp add: world_defs)
  have "length (all_vacant (arrivals ?w)) \<le> 96"
    using length_all_vacant [of "arrivals ?w"] by (simp add: initial_def Mira_init_def)
  with n have v: "int (length (all_vacant (arrivals ?w)))
      < num_of_requested_nodes (jobs (arrivals ?w) 1) div 512"
    by simp
  have "never_fits ?w 1"
    by (simp add: never_fits_def blocked_trace_def world_defs)
  from wf_iteration [OF wf_initial this] obtain s' where "iteration ?w = Inr s'"
    by blast
  then have it: "iteration ?w = Inr (world_of (iteration ?w))"
    by (simp add: world_of_def)
  note inst = blocked_head_blocks_queue [OF q v]
  from inst have sch: "schedule (arrivals ?w) = arrivals ?w" by (rule conjunct1)
  from inst have "arrivals ?w = arrivals ?w \<and> iteration ?w = Inr (world_of (iteration ?w))
      \<longrightarrow> queue (world_of (iteration ?w)) = [1, 0]
          \<and> set (running_jobs (world_of (iteration ?w))) \<subseteq> set (running_jobs ?w)"
    by blast
  with it r have "queue (world_of (iteration ?w)) = [1, 0]"
    "running_jobs (world_of (iteration ?w)) = []"
    by simp_all
  with q sch it show ?thesis by simp
qed

subsection \<open>Requests below one midplane\<close>

text \<open>
  C10, as amended. A job at the head of the queue that asks for \<open>n\<close> nodes with
  \<open>0 \<le> n < 512\<close> needs \<open>n div 512 = 0\<close> midplanes, so the scheduler admits it in that call
  whatever the midplanes hold: it leaves the queue, is READY, joins the running set, holds
  the empty list of midplanes, and no midplane changes. It then runs to completion holding
  no midplane: in every world the loop can be in (\<open>wf_world\<close>, which holds initially and
  after every round, see \<open>wf_initial\<close> and \<open>wf_reachable\<close>), after every later round
  the job's list of midplanes is empty, and after some number of rounds the job is ENDED
  and out of the running set, the loop having neither died nor left the job behind.
\<close>

theorem small_request_runs_without_midplanes:
  assumes "queue s = next_job # rest"
    and "0 \<le> num_of_requested_nodes (jobs s next_job)"
    and "num_of_requested_nodes (jobs s next_job) < 512"
  shows "queue (schedule s) = rest
         \<and> running_jobs (schedule s) = running_jobs s @ [next_job]
         \<and> status (jobs (schedule s) next_job) = READY
         \<and> midplanes (jobs (schedule s) next_job) = []
         \<and> mps (schedule s) = mps s
         \<and> (\<forall>s0. wf_world s0 \<and> arrivals s0 = s \<longrightarrow>
               (\<forall>k. midplanes (jobs (state_of (simulation (Suc k) s0)) next_job) = [])
               \<and> (\<exists>m s'. (simulation m s0 = Still_Looping s' \<or> simulation m s0 = Finished s')
                      \<and> status (jobs s' next_job) = ENDED
                      \<and> next_job \<notin> set (running_jobs s')))"
proof -
  let ?j = next_job
  let ?s2 = "schedule s"
  from assms(2,3) have "num_of_requested_nodes (jobs s ?j) div 512 = 0" by simp
  with schedule_eq [OF assms(1)] have sch: "?s2 = admit ?j rest [] s" by simp
  have adm: "queue ?s2 = rest" "running_jobs ?s2 = running_jobs s @ [?j]"
    "status (jobs ?s2 ?j) = READY" "midplanes (jobs ?s2 ?j) = []" "mps ?s2 = mps s"
    unfolding sch by (simp_all add: fun_eq_iff admit_mps)
  have run: "(\<forall>k. midplanes (jobs (state_of (simulation (Suc k) s0)) ?j) = [])
               \<and> (\<exists>m s'. (simulation m s0 = Still_Looping s' \<or> simulation m s0 = Finished s')
                      \<and> status (jobs s' ?j) = ENDED \<and> ?j \<notin> set (running_jobs s'))"
    if wf0: "wf_world s0" and a: "arrivals s0 = s" for s0
  proof -
    let ?t = "simulated_wallclock ?s2"
    from wf0 a have wf2: "wf_world ?s2" using wf_arrivals wf_schedule by blast
    from adm(2) have r2: "?j \<in> set (running_jobs ?s2)" by simp
    with wf2 have lb2: "left_behind ?s2 ?j"
      by (auto simp: left_behind_def wf_world_def adm(4))
    from tick_round [OF wf2 r2, of ?t] obtain s3 where
      jt: "jobs_tick ?t ?s2 = Inr s3" and wf3: "wf_world s3" and fr: "same_frame ?s2 s3"
      and pr: "status (jobs s3 ?j) = ENDED \<and> ?j \<notin> set (running_jobs s3)
                \<or> ?j \<in> set (running_jobs s3)
                   \<and> length (running_jobs s3) + remaining (?t + 1) (jobs s3 ?j)
                       < length (running_jobs ?s2) + remaining ?t (jobs ?s2 ?j)"
      by blast
    let ?s1 = "inc_wallclock s3"
    from jt a have it: "iteration s0 = Inr ?s1" by (simp add: iteration_def Let_def)
    from wf3 have wf1: "wf_world ?s1"
      by (simp add: inc_wallclock_def wf_world_def holds_midplanes_def)
    from lb2 fr have lb1: "left_behind ?s1 ?j"
      by (simp add: left_behind_def same_frame_def inc_wallclock_def)
    from arrivals_counts [of s0] a assms(1) have "trace_jobs s0 \<noteq> [] \<or> queue s0 \<noteq> []"
      by auto
    then have c: "loop_condition s0" by (auto simp: loop_condition_def)
    have step: "simulation (Suc m) s0 = simulation m ?s1" for m
      using c it by (subst simulation.simps) simp
    have safe: "\<forall>k. midplanes (jobs (state_of (simulation (Suc k) s0)) ?j) = []"
      using left_behind_simulation [OF wf1 lb1] by (simp add: step left_behind_def)
    have "\<exists>m s'. (simulation m s0 = Still_Looping s' \<or> simulation m s0 = Finished s')
                      \<and> status (jobs s' ?j) = ENDED \<and> ?j \<notin> set (running_jobs s')"
    proof (cases "?j \<in> set (running_jobs ?s1)")
      case True
      from running_job_ends [OF wf1 True] obtain m s' where
        "simulation m ?s1 = Still_Looping s' \<or> simulation m ?s1 = Finished s'"
        "status (jobs s' ?j) = ENDED" "?j \<notin> set (running_jobs s')"
        by blast
      with step [of m] show ?thesis by metis
    next
      case False
      with pr have e: "status (jobs ?s1 ?j) = ENDED" "?j \<notin> set (running_jobs ?s1)"
        by (auto simp: inc_wallclock_def)
      have "simulation 0 ?s1 = Still_Looping ?s1 \<or> simulation 0 ?s1 = Finished ?s1"
        by (simp add: simulation.simps)
      with e step [of 0] show ?thesis by metis
    qed
    with safe show ?thesis by blast
  qed
  from adm run show ?thesis by blast
qed

text \<open>With every midplane occupied by another job, a request of 100 nodes is admitted and
  runs to its end.\<close>

theorem small_request_runs_without_midplanes_witness:
  "all_vacant full_machine = []
   \<and> wf_world full_machine
   \<and> arrivals full_machine = full_machine
   \<and> queue (schedule full_machine) = []
   \<and> running_jobs (schedule full_machine) = [0]
   \<and> status (jobs (schedule full_machine) 0) = READY
   \<and> midplanes (jobs (schedule full_machine) 0) = []
   \<and> mps (schedule full_machine) = mps full_machine
   \<and> midplanes (jobs (state_of (simulation (Suc 0) full_machine)) 0) = []
   \<and> (\<exists>m s'. (simulation m full_machine = Still_Looping s'
                  \<or> simulation m full_machine = Finished s')
             \<and> status (jobs s' 0) = ENDED \<and> 0 \<notin> set (running_jobs s'))"
proof -
  have q: "queue full_machine = [0]" and r: "running_jobs full_machine = []"
    and n: "0 \<le> num_of_requested_nodes (jobs full_machine 0)"
           "num_of_requested_nodes (jobs full_machine 0) < 512"
    by (simp_all add: full_machine_def world_defs)
  have v: "all_vacant full_machine = []"
    by (simp add: full_machine_def world_defs all_vacant_def MidPlane_is_vacant_def
                  occupied_by_def)
  have wf: "wf_world full_machine"
    by (simp add: wf_world_def full_machine_def queued_alone_def initial_def Mira_init_def)
  have a: "arrivals full_machine = full_machine"
    by (simp add: arrivals.simps get_job_def full_machine_def queued_alone_def initial_def
                  Mira_init_def)
  note inst = small_request_runs_without_midplanes [OF q n]
  from inst have "wf_world full_machine \<and> arrivals full_machine = full_machine \<longrightarrow>
               (\<forall>k. midplanes (jobs (state_of (simulation (Suc k) full_machine)) 0) = [])
               \<and> (\<exists>m s'. (simulation m full_machine = Still_Looping s'
                            \<or> simulation m full_machine = Finished s')
                      \<and> status (jobs s' 0) = ENDED \<and> 0 \<notin> set (running_jobs s'))"
    by blast
  with wf a have
    "midplanes (jobs (state_of (simulation (Suc 0) full_machine)) 0) = []"
    "\<exists>m s'. (simulation m full_machine = Still_Looping s'
                  \<or> simulation m full_machine = Finished s')
             \<and> status (jobs s' 0) = ENDED \<and> 0 \<notin> set (running_jobs s')"
    by blast+
  with inst v wf a r show ?thesis by simp
qed

text \<open>The claim as stated covers every count below 512. A count of \<open>- 1\<close>, which the
  trace file can hold, gives \<open>- 1 div 512 = - 1\<close>; the search then returns all 96 vacant
  midplanes, \<open>96 \<noteq> - 1\<close>, and the job is not admitted.\<close>

theorem negative_request_counterexample:
  "queue (arrivals (initial negative_request)) = [0]
   \<and> num_of_requested_nodes (jobs (arrivals (initial negative_request)) 0) = - 1
   \<and> schedule (arrivals (initial negative_request)) = arrivals (initial negative_request)
   \<and> running_jobs (schedule (arrivals (initial negative_request))) = []"
proof -
  let ?a = "arrivals (initial negative_request)"
  have q: "queue ?a = [0]" and n: "num_of_requested_nodes (jobs ?a 0) = - 1"
    and r: "running_jobs ?a = []"
    by (simp_all add: negative_request_def world_defs arrivals.simps get_job_def)
  from schedule_eq [OF q] n have "schedule ?a = ?a" by simp
  with q n r show ?thesis by simp
qed

subsection \<open>The order of events in a round\<close>

text \<open>
  C8. Take any trace as \<open>parse_trace_file\<close> leaves it and any round the loop reaches, the
  one after \<open>n\<close> completed rounds. The clock reads \<open>n\<close>. The arrival loop pulls exactly
  the jobs of the trace whose submission time is the clock (all of them, none else) and
  appends them to the queue in the order pulled; then the round calls the scheduler once,
  then ticks the running jobs at that clock, and last adds 1 to the clock. \<open>get_job\<close>
  yields a job only at its own submission time.
\<close>

theorem tick_protocol:
  assumes "normalise rows = Inr js" and "simulation n (initial js) = Still_Looping s"
  shows "simulated_wallclock s = int n
       \<and> trace_jobs (arrivals s) =
           filter (\<lambda>j. arrival_time s j \<noteq> simulated_wallclock s) (trace_jobs s)
       \<and> queue (arrivals s) =
           queue s @ rev (filter (\<lambda>j. arrival_time s j = simulated_wallclock s) (trace_jobs s))
       \<and> iteration s =
           (case jobs_tick (simulated_wallclock s) (schedule (arrivals s)) of
              Inl e \<Rightarrow> Inl e
            | Inr s3 \<Rightarrow> Inr (inc_wallclock s3))
       \<and> (\<forall>s'. iteration s = Inr s' \<longrightarrow> simulated_wallclock s' = simulated_wallclock s + 1)
       \<and> (\<forall>t j s1. get_job t s = Some (j, s1) \<longrightarrow> arrival_time s j = t)"
proof -
  from feed_ordered_simulation [OF feed_ordered_initial [OF assms(1)] assms(2)] have
    fo: "feed_ordered s" and c: "simulated_wallclock s = int n"
    by (simp_all add: initial_def Mira_init_def)
  have it: "iteration s =
           (case jobs_tick (simulated_wallclock s) (schedule (arrivals s)) of
              Inl e \<Rightarrow> Inl e
            | Inr s3 \<Rightarrow> Inr (inc_wallclock s3))"
    by (simp add: iteration_def Let_def)
  have "\<forall>t j s1. get_job t s = Some (j, s1) \<longrightarrow> arrival_time s j = t"
    by (simp add: get_job_Some)
  with c it arrivals_ordered [OF fo] feed_ordered_iteration [OF fo] show ?thesis
    by blast
qed

text \<open>Two rows submitted at 100 and 101: after the first round the clock is 1, the job
  submitted at (normalised) time 1 is still in the trace and is pulled in this round.\<close>

theorem tick_protocol_witness:
  "normalise two_arrivals = Inr two_arrivals_parsed
   \<and> simulation (Suc 0) (initial two_arrivals_parsed) = Still_Looping after_first_round
   \<and> simulated_wallclock after_first_round = 1
   \<and> trace_jobs after_first_round = [0]
   \<and> trace_jobs (arrivals after_first_round) = []
   \<and> get_job 1 after_first_round
       = Some (0, after_first_round\<lparr>trace_jobs := []\<rparr>)
   \<and> arrival_time after_first_round 0 = 1
   \<and> iteration after_first_round = Inr (world_of (iteration after_first_round))
   \<and> simulated_wallclock (world_of (iteration after_first_round)) = 2"
proof -
  have nrm: "normalise two_arrivals = Inr two_arrivals_parsed"
    by (simp add: normalise_def sort_reverse_def two_arrivals_def two_arrivals_parsed_def
                  Job_init_def Let_def)
  have "\<exists>s. simulation (Suc 0) (initial two_arrivals_parsed) = Still_Looping s"
    by (simp add: two_arrivals_parsed_def run_defs)
  then have sim: "simulation (Suc 0) (initial two_arrivals_parsed) = Still_Looping after_first_round"
    by (auto simp: after_first_round_def state_of_def)
  note inst = tick_protocol [OF nrm sim]
  have tr: "trace_jobs after_first_round = [0]"
    and at: "arrival_time after_first_round 0 = 1"
    by (simp_all add: after_first_round_def state_of_def two_arrivals_parsed_def run_defs
                      arrival_time_def)
  from inst have c: "simulated_wallclock after_first_round = 1" by simp
  from inst tr at c have ta: "trace_jobs (arrivals after_first_round) = []" by simp
  have g: "get_job 1 after_first_round = Some (0, after_first_round\<lparr>trace_jobs := []\<rparr>)"
    using tr at by (simp add: get_job_Some)
  have "\<not> isl (iteration after_first_round)"
    by (simp add: after_first_round_def state_of_def two_arrivals_parsed_def run_defs)
  then have it: "iteration after_first_round = Inr (world_of (iteration after_first_round))"
    by (rule world_of_Inr)
  from inst have "iteration after_first_round = Inr (world_of (iteration after_first_round))
      \<longrightarrow> simulated_wallclock (world_of (iteration after_first_round))
          = simulated_wallclock after_first_round + 1"
    by blast
  with it c have "simulated_wallclock (world_of (iteration after_first_round)) = 2" by simp
  with nrm sim c tr ta g at it show ?thesis by simp
qed

subsection \<open>From admission to RUNNING\<close>

text \<open>
  C4, as amended. The round ticks the running jobs right after the scheduler, at the same
  clock. So a job admitted at tick \<open>T\<close> (READY, midplanes allocated) whose duration is
  positive is RUNNING after the tick step of that same round, with start time \<open>T\<close> and end
  time \<open>T + duration\<close>, whenever no job that was already running ends on that tick (a job
  that ends is removed from the list the loop is walking over). In Scenario A the job
  admitted at \<open>t = 0\<close> with duration 3 has start time 0 and end time 3 from tick 0 on, and
  is ENDED, its midplane released, at \<open>t = 3\<close>.
\<close>

theorem admitted_job_starts_same_tick:
  assumes "queue s = next_job # rest"
    and "0 \<le> num_of_requested_nodes (jobs s next_job) div 512"
    and "num_of_requested_nodes (jobs s next_job) div 512 \<le> int (length (all_vacant s))"
    and "next_job \<notin> set (running_jobs s)"
    and "\<forall>j\<in>set (running_jobs s). keeps_running (simulated_wallclock s) (jobs s j)"
    and "0 < duration (jobs s next_job)"
  shows "status (jobs (schedule s) next_job) = READY
         \<and> simulated_wallclock (schedule s) = simulated_wallclock s
         \<and> (\<exists>s'. jobs_tick (simulated_wallclock s) (schedule s) = Inr s'
                \<and> status (jobs s' next_job) = RUNNING
                \<and> start_time (jobs s' next_job) = Some (simulated_wallclock s)
                \<and> end_time (jobs s' next_job)
                    = Some (simulated_wallclock s + duration (jobs s next_job)))"
proof -
  let ?t = "simulated_wallclock s"
  let ?s2 = "schedule s"
  let ?ms = "take (nat (num_of_requested_nodes (jobs s next_job) div 512)) (all_vacant s)"
  from schedule_eq [OF assms(1)] assms(2,3) have
    sch: "?s2 = admit next_job rest ?ms s" by simp
  have r2: "running_jobs ?s2 = running_jobs s @ [next_job]"
    and st2: "status (jobs ?s2 next_job) = READY"
    and d2: "duration (jobs ?s2 next_job) = duration (jobs s next_job)"
    and o2: "\<forall>x. x \<noteq> next_job \<longrightarrow> jobs ?s2 x = jobs s x"
    unfolding sch by simp_all
  have "keeps_running ?t (jobs ?s2 j)" if "j \<in> set (running_jobs ?s2)" for j
  proof (cases "j = next_job")
    case True
    with st2 d2 assms(6) show ?thesis by (simp add: keeps_running_def)
  next
    case False
    with that r2 have "j \<in> set (running_jobs s)" by simp
    with assms(5) False o2 show ?thesis by simp
  qed
  then have "\<forall>j\<in>set (running_jobs ?s2). keeps_running ?t (jobs ?s2 j)" by blast
  from loop_keeps [OF this, of 0] obtain s' where
    all: "jobs_tick_loop 0 ?t ?s2 = Inr s' \<and> running_jobs s' = running_jobs ?s2
           \<and> mps s' = mps ?s2
           \<and> (\<forall>x. started_at ?t (jobs ?s2 x) \<longrightarrow> started_at ?t (jobs s' x))
           \<and> (\<forall>k. 0 \<le> k \<and> k < length (running_jobs ?s2)
                   \<and> status (jobs ?s2 (running_jobs ?s2 ! k)) = READY
                 \<longrightarrow> started_at ?t (jobs s' (running_jobs ?s2 ! k)))" ..
  from all have l: "jobs_tick_loop 0 ?t ?s2 = Inr s'" by (rule conjunct1)
  from all have rd: "\<forall>k. 0 \<le> k \<and> k < length (running_jobs ?s2)
                   \<and> status (jobs ?s2 (running_jobs ?s2 ! k)) = READY
                 \<longrightarrow> started_at ?t (jobs s' (running_jobs ?s2 ! k))"
    by (elim conjE)
  have last: "running_jobs ?s2 ! length (running_jobs s) = next_job"
    by (simp add: r2)
  have "0 \<le> length (running_jobs s) \<and> length (running_jobs s) < length (running_jobs ?s2)
      \<and> status (jobs ?s2 (running_jobs ?s2 ! length (running_jobs s))) = READY"
    unfolding last using st2 by (simp add: r2)
  with rd have "started_at ?t (jobs s' (running_jobs ?s2 ! length (running_jobs s)))"
    by blast
  then have sa: "started_at ?t (jobs s' next_job)"
    unfolding last .
  from l have jt: "jobs_tick ?t ?s2 = Inr s'" by (simp add: jobs_tick_def)
  from jobs_tick_frame [OF jt] d2 have "duration (jobs s' next_job) = duration (jobs s next_job)"
    by (simp add: same_frame_def)
  with sa have "status (jobs s' next_job) = RUNNING
                \<and> start_time (jobs s' next_job) = Some ?t
                \<and> end_time (jobs s' next_job) = Some (?t + duration (jobs s next_job))"
    by (simp add: started_at_def)
  with jt have "\<exists>s'. jobs_tick ?t ?s2 = Inr s'
                \<and> status (jobs s' next_job) = RUNNING
                \<and> start_time (jobs s' next_job) = Some ?t
                \<and> end_time (jobs s' next_job) = Some (?t + duration (jobs s next_job))"
    by blast
  moreover have "simulated_wallclock ?s2 = ?t" by simp
  ultimately show ?thesis using st2 by blast
qed

theorem admitted_job_starts_same_tick_witness:
  "queue (arrivals (initial scenario_A)) = [0]
   \<and> simulated_wallclock (arrivals (initial scenario_A)) = 0
   \<and> status (jobs (schedule (arrivals (initial scenario_A))) 0) = READY
   \<and> (\<exists>s'. jobs_tick 0 (schedule (arrivals (initial scenario_A))) = Inr s'
          \<and> status (jobs s' 0) = RUNNING
          \<and> start_time (jobs s' 0) = Some 0
          \<and> end_time (jobs s' 0) = Some 3)
   \<and> simulation (Suc (Suc (Suc (Suc 0)))) (initial scenario_A) = Finished scenario_A_end
   \<and> status (jobs scenario_A_end 0) = ENDED
   \<and> end_time (jobs scenario_A_end 0) = Some 3
   \<and> mp_status (mps scenario_A_end 0) = VACANT
   \<and> simulated_wallclock scenario_A_end = 4"
proof -
  let ?a = "arrivals (initial scenario_A)"
  have q: "queue ?a = [0]" and r: "running_jobs ?a = []" and c: "simulated_wallclock ?a = 0"
    and n: "num_of_requested_nodes (jobs ?a 0) = 512" and d: "duration (jobs ?a 0) = 3"
    by (simp_all add: scenario_A_def world_defs arrivals.simps get_job_def)
  have v: "length (all_vacant ?a) = 96"
    by (simp add: scenario_A_def world_defs all_vacant_def MidPlane_is_vacant_def)
  from admitted_job_starts_same_tick [OF q, unfolded n v r d c] q c have start:
    "queue ?a = [0] \<and> simulated_wallclock ?a = 0 \<and> status (jobs (schedule ?a) 0) = READY
     \<and> (\<exists>s'. jobs_tick 0 (schedule ?a) = Inr s' \<and> status (jobs s' 0) = RUNNING
            \<and> start_time (jobs s' 0) = Some 0 \<and> end_time (jobs s' 0) = Some 3)"
    by simp
  have "\<exists>s. simulation (Suc (Suc (Suc (Suc 0)))) (initial scenario_A) = Finished s
          \<and> status (jobs s 0) = ENDED \<and> end_time (jobs s 0) = Some 3
          \<and> mp_status (mps s 0) = VACANT \<and> simulated_wallclock s = 4"
    by (simp add: scenario_A_def run_defs)
  then obtain s where
    f: "simulation (Suc (Suc (Suc (Suc 0)))) (initial scenario_A) = Finished s"
    and p: "status (jobs s 0) = ENDED" "end_time (jobs s 0) = Some 3"
       "mp_status (mps s 0) = VACANT" "simulated_wallclock s = 4"
    by auto
  from f have "scenario_A_end = s" by (simp add: scenario_A_end_def state_of_def)
  with f p start show ?thesis by simp
qed

text \<open>The claim as stated has the job RUNNING only from tick \<open>T + 1\<close>. In Scenario A the
  job is admitted under clock 0 and the first round already leaves it RUNNING with start
  time 0.\<close>

theorem running_one_tick_later_counterexample:
  "simulated_wallclock (schedule (arrivals (initial scenario_A))) = 0
   \<and> status (jobs (schedule (arrivals (initial scenario_A))) 0) = READY
   \<and> iteration (initial scenario_A) = Inr (world_of (iteration (initial scenario_A)))
   \<and> status (jobs (world_of (iteration (initial scenario_A))) 0) = RUNNING
   \<and> start_time (jobs (world_of (iteration (initial scenario_A))) 0) = Some 0
   \<and> end_time (jobs (world_of (iteration (initial scenario_A))) 0) = Some 3
   \<and> simulated_wallclock (world_of (iteration (initial scenario_A))) = 1"
proof -
  have adm: "simulated_wallclock (schedule (arrivals (initial scenario_A))) = 0
      \<and> status (jobs (schedule (arrivals (initial scenario_A))) 0) = READY"
    by (simp add: scenario_A_def run_defs)
  have "\<exists>s. iteration (initial scenario_A) = Inr s
          \<and> status (jobs s 0) = RUNNING \<and> start_time (jobs s 0) = Some 0
          \<and> end_time (jobs s 0) = Some 3 \<and> simulated_wallclock s = 1"
    by (simp add: scenario_A_def run_defs)
  then obtain s where
    f: "iteration (initial scenario_A) = Inr s"
    and p: "status (jobs s 0) = RUNNING" "start_time (jobs s 0) = Some 0"
       "end_time (jobs s 0) = Some 3" "simulated_wallclock s = 1"
    by auto
  from f have "world_of (iteration (initial scenario_A)) = s" by (simp add: world_of_def)
  with f p adm show ?thesis by simp
qed

subsection \<open>Removing an ended job while walking over the running list\<close>

text \<open>
  C1. Claimed: in every round each job of the running set is ticked once, none is skipped.
  \<open>jobs_tick\<close> removes an ended job from the list its \<open>for\<close> loop is walking over, so the
  job that follows an ended job moves into the position just visited and is not ticked in
  that round. Two jobs submitted at 0, A (duration 1) admitted in round 0 and B in round 1:
  in round 1 the running list is A, B; A ends and is removed; B, READY, is left untouched.
\<close>

theorem ended_job_hides_next:
  "iteration (initial skip_trace) = Inr (world_of (iteration (initial skip_trace)))
   \<and> simulated_wallclock skip_before_tick = 1
   \<and> running_jobs skip_before_tick = [1, 0]
   \<and> status (jobs skip_before_tick 1) = RUNNING
   \<and> end_time (jobs skip_before_tick 1) = Some 1
   \<and> status (jobs skip_before_tick 0) = READY
   \<and> jobs_tick 1 skip_before_tick = Inr skip_after_tick
   \<and> status (jobs skip_after_tick 1) = ENDED
   \<and> running_jobs skip_after_tick = [0]
   \<and> status (jobs skip_after_tick 0) = READY
   \<and> start_time (jobs skip_after_tick 0) = None"
proof -
  have "\<exists>s. skip_before_tick = s
          \<and> simulated_wallclock s = 1 \<and> running_jobs s = [1, 0]
          \<and> status (jobs s 1) = RUNNING \<and> end_time (jobs s 1) = Some 1
          \<and> status (jobs s 0) = READY
          \<and> (\<exists>s'. jobs_tick 1 s = Inr s'
                \<and> status (jobs s' 1) = ENDED \<and> running_jobs s' = [0]
                \<and> status (jobs s' 0) = READY \<and> start_time (jobs s' 0) = None)"
    by (simp add: skip_before_tick_def skip_trace_def run_defs world_of_def)
  then obtain s' where
    b: "simulated_wallclock skip_before_tick = 1" "running_jobs skip_before_tick = [1, 0]"
       "status (jobs skip_before_tick 1) = RUNNING" "end_time (jobs skip_before_tick 1) = Some 1"
       "status (jobs skip_before_tick 0) = READY"
    and t: "jobs_tick 1 skip_before_tick = Inr s'"
    and a: "status (jobs s' 1) = ENDED" "running_jobs s' = [0]"
       "status (jobs s' 0) = READY" "start_time (jobs s' 0) = None"
    by auto
  from t have "skip_after_tick = s'" by (simp add: skip_after_tick_def world_of_def)
  moreover have "\<not> isl (iteration (initial skip_trace))"
    by (simp add: skip_trace_def run_defs)
  then have "iteration (initial skip_trace) = Inr (world_of (iteration (initial skip_trace)))"
    by (rule world_of_Inr)
  ultimately show ?thesis using b t a by simp
qed

text \<open>
  C3. Claimed: once a job has started, \<open>end_time = start_time + duration\<close> holds in every
  later state, ENDED included. \<open>end\<close> stores the clock of the tick that ends the job, and
  that tick is late when the job was skipped in the round of its end time. Two jobs
  submitted at 0, A with duration 2 and B with duration 1: B starts at 1 with end time 2,
  is skipped at tick 2 because A ends there, and is ended at tick 3 with end time 3.
\<close>

theorem skipped_job_ends_late:
  "simulation (Suc (Suc (Suc (Suc 0)))) (initial late_end_trace) = Finished late_end
   \<and> status (jobs late_end 0) = ENDED
   \<and> start_time (jobs late_end 0) = Some 1
   \<and> duration (jobs late_end 0) = 1
   \<and> end_time (jobs late_end 0) = Some 3"
proof -
  have "\<exists>s. simulation (Suc (Suc (Suc (Suc 0)))) (initial late_end_trace) = Finished s
          \<and> status (jobs s 0) = ENDED \<and> start_time (jobs s 0) = Some 1
          \<and> duration (jobs s 0) = 1 \<and> end_time (jobs s 0) = Some 3"
    by (simp add: late_end_trace_def run_defs)
  then obtain s where
    f: "simulation (Suc (Suc (Suc (Suc 0)))) (initial late_end_trace) = Finished s"
    and p: "status (jobs s 0) = ENDED" "start_time (jobs s 0) = Some 1"
       "duration (jobs s 0) = 1" "end_time (jobs s 0) = Some 3"
    by auto
  from f have "late_end = s" by (simp add: late_end_def state_of_def)
  with f p show ?thesis by simp
qed

end
